theory Spec2Isabelle
  imports Main "HOL-Library.Word" "HOL-Library.Multiset"
begin

unbundle bit_operations_syntax

section \<open>Bytes, hashing and little-endian integers\<close>

type_synonym byte = "8 word"
type_synonym bytes = "byte list"
type_synonym u32 = "32 word"
type_synonym u64 = "64 word"

text \<open>hashing/hashing.go: the two constants and \<^verbatim>\<open>FNV1a64\<close>. The loop over the bytes
  of \<^verbatim>\<open>b\<close> is a left fold; the multiplication wraps at 64 bits.\<close>

definition offset64 :: u64 where
  "offset64 = 14695981039346656037"

definition prime64 :: u64 where
  "prime64 = 1099511628211"

definition FNV1a64 :: "bytes \<Rightarrow> u64" where
  "FNV1a64 b = fold (\<lambda>c h. (h XOR ucast c) * prime64) b offset64"

text \<open>\<^verbatim>\<open>binary.LittleEndian\<close>: the value of a byte string read with the least
  significant byte first, and the \<^verbatim>\<open>n\<close> low bytes of a value in that order (what
  \<^verbatim>\<open>PutUint32\<close> writes for \<^verbatim>\<open>n = 4\<close>).\<close>

fun le_uint :: "bytes \<Rightarrow> nat" where
  "le_uint [] = 0"
| "le_uint (b # bs) = unat b + 256 * le_uint bs"

fun le_bytes :: "nat \<Rightarrow> nat \<Rightarrow> bytes" where
  "le_bytes 0 v = []"
| "le_bytes (Suc n) v = of_nat (v mod 256) # le_bytes n (v div 256)"

text \<open>\<^verbatim>\<open>Uint64\<close> assembles its result from the first 8 bytes by shifts and ORs.\<close>

fun le_word64 :: "bytes \<Rightarrow> u64" where
  "le_word64 [] = 0"
| "le_word64 (b # bs) = ucast b OR push_bit 8 (le_word64 bs)"

definition Uint64 :: "bytes \<Rightarrow> u64" where
  "Uint64 b = le_word64 (take 8 b)"

section \<open>Errors, panics and non-termination\<close>

text \<open>The errors the primitives return (Go builds them with \<^verbatim>\<open>errors.New\<close>; one
  constructor per message), a run-time panic (a slice expression out of range) as the
  outcome \<open>Panic\<close>, and a probing loop that never ends as the value \<open>None\<close>.\<close>

datatype error =
    ErrSetValueLen
  | ErrCASValueLen
  | ErrCASEmptyPair
  | ErrCASTimestamp
  | ErrCASHash
  | ErrStoreFull
  | ErrTableTooLarge

datatype 'a exec = Panic | Return 'a

definition ret :: "'a \<Rightarrow> 'a exec option" where
  "ret x = Some (Return x)"

definition bindx :: "'a exec option \<Rightarrow> ('a \<Rightarrow> 'b exec option) \<Rightarrow> 'b exec option" where
  "bindx m f = (case m of None \<Rightarrow> None | Some Panic \<Rightarrow> Some Panic | Some (Return x) \<Rightarrow> f x)"

definition bindp :: "'a option \<Rightarrow> ('a \<Rightarrow> 'b exec option) \<Rightarrow> 'b exec option" where
  "bindp m f = (case m of None \<Rightarrow> Some Panic | Some x \<Rightarrow> f x)"

section \<open>The store\<close>

text \<open>Modelled from the spec: store.go is not among the sources. The store is the mapped
  file (\<open>file\<close>, created zero-filled with exactly \<open>size\<close> bytes), the next free offset
  \<open>length\<close> and the counter \<open>deleted\<close>. A record is framed with 12 bytes of overhead:
  the 8 byte header pmap.go's package comment names (keyLen, valLen, little-endian), the
  key, the value, and the 4 byte totalLen that \<^verbatim>\<open>prev\<close> reads from the bytes ending at
  an offset (the spec's "totalLen tail"; its record table lists that field before the
  key, its description of \<^verbatim>\<open>prev\<close> and pmap.go's comment place it here, and only so
  does \<^verbatim>\<open>prev\<close> locate the preceding record). A read outside the mapping panics.\<close>

record store =
  file_st :: bytes
  length_st :: nat
  deleted_st :: u64

definition size_st :: "store \<Rightarrow> nat" where
  "size_st s = length (file_st s)"

definition newStore :: "nat \<Rightarrow> store" where
  "newStore sz = \<lparr>file_st = replicate sz 0, length_st = 0, deleted_st = 0\<rparr>"

definition openStore :: "bytes \<Rightarrow> store" where
  "openStore f = \<lparr>file_st = f, length_st = 0, deleted_st = 0\<rparr>"

text \<open>The Go slice expression \<^verbatim>\<open>f[a:b]\<close>.\<close>

definition slice :: "bytes \<Rightarrow> nat \<Rightarrow> nat \<Rightarrow> bytes option" where
  "slice f a b = (if a \<le> b \<and> b \<le> length f then Some (take (b - a) (drop a f)) else None)"

definition keyLen :: "store \<Rightarrow> nat \<Rightarrow> nat option" where
  "keyLen s i = map_option le_uint (slice (file_st s) i (i + 4))"

definition valLen :: "store \<Rightarrow> nat \<Rightarrow> nat option" where
  "valLen s i = map_option le_uint (slice (file_st s) (i + 4) (i + 8))"

definition totalLen :: "store \<Rightarrow> nat \<Rightarrow> nat option" where
  "totalLen s i =
     (case keyLen s i of None \<Rightarrow> None
      | Some kl \<Rightarrow> (case valLen s i of None \<Rightarrow> None | Some vl \<Rightarrow> Some (kl + vl)))"

definition key_st :: "store \<Rightarrow> nat \<Rightarrow> bytes option" where
  "key_st s i =
     (case keyLen s i of None \<Rightarrow> None | Some kl \<Rightarrow> slice (file_st s) (i + 8) (i + 8 + kl))"

text \<open>A value is handed out as a zero-copy view: a Go slice of the mapping. The view
  keeps the bytes up to the end of the mapping (its capacity) and its length, because
  pmap.go re-slices views with \<^verbatim>\<open>v[:8]\<close>, which Go bounds by the capacity, not by the
  length.\<close>

record view =
  backing :: bytes
  len :: nat

definition view_bytes :: "view \<Rightarrow> bytes" where
  "view_bytes v = take (len v) (backing v)"

definition view_to :: "view \<Rightarrow> nat \<Rightarrow> bytes option" where
  "view_to v n = (if n \<le> length (backing v) then Some (take n (backing v)) else None)"

definition view_from :: "view \<Rightarrow> nat \<Rightarrow> bytes option" where
  "view_from v n = (if n \<le> len v then Some (drop n (view_bytes v)) else None)"

definition val_st :: "store \<Rightarrow> nat \<Rightarrow> view option" where
  "val_st s i =
     (case keyLen s i of None \<Rightarrow> None
      | Some kl \<Rightarrow>
          (case valLen s i of None \<Rightarrow> None
           | Some vl \<Rightarrow>
               if i + 8 + kl + vl \<le> length (file_st s)
               then Some \<lparr>backing = drop (i + 8 + kl) (file_st s), len = vl\<rparr>
               else None))"

definition frame :: "bytes \<Rightarrow> bytes \<Rightarrow> bytes" where
  "frame key val =
     le_bytes 4 (length key) @ le_bytes 4 (length val) @ key @ val
     @ le_bytes 4 (length key + length val)"

definition write_at :: "bytes \<Rightarrow> nat \<Rightarrow> bytes \<Rightarrow> bytes" where
  "write_at f i b = take i f @ b @ drop (i + length b) f"

definition put :: "store \<Rightarrow> bytes \<Rightarrow> bytes \<Rightarrow> error + (u32 \<times> store)" where
  "put s key val =
     (if length_st s + 12 + length key + length val > size_st s then Inl ErrStoreFull
      else Inr (of_nat (length_st s),
                s\<lparr>file_st := write_at (file_st s) (length_st s) (frame key val),
                  length_st := length_st s + 12 + length key + length val\<rparr>))"

definition prev :: "store \<Rightarrow> nat \<Rightarrow> int option" where
  "prev s i =
     (if i = 0 then Some (- 1)
      else if i < 4 then None
      else map_option (\<lambda>b. int i - 12 - int (le_uint b)) (slice (file_st s) (i - 4) i))"

section \<open>The hash map\<close>

text \<open>Modelled from the spec: hashmap.go is not among the sources. A bucket is the pair
  (hash32, storeOffset32); the table has \<open>2 ^ sizeLog2\<close> buckets, of which only the
  indexes up to \<open>sizeMask\<close> are ever touched. The two sentinels and the remap are the
  spec's examples; the load factor is the recommended three quarters. The initial size
  and the size limit (\<^verbatim>\<open>defaultHashMapInitialLog2Size\<close>, \<^verbatim>\<open>defaultHashMapSizeLimit\<close>)
  are parameters.\<close>

definition emptyBucket :: u32 where
  "emptyBucket = 0xFFFFFFFF"

definition deletedBucket :: u32 where
  "deletedBucket = 0xFFFFFFFE"

definition hashReMap :: "u32 \<Rightarrow> u32" where
  "hashReMap h = (if h = emptyBucket \<or> h = deletedBucket then h + 2 else h)"

record hashmap =
  table :: "u32 \<Rightarrow> u32 \<times> u32"
  sizeLog2 :: nat
  sizeLimit :: nat
  sizeMask :: u32
  numStoredKeys :: nat
  numKeysToExpand :: nat

definition newHashMap :: "nat \<Rightarrow> nat \<Rightarrow> hashmap" where
  "newHashMap log2size limit =
     \<lparr>table = (\<lambda>_. (emptyBucket, 0)), sizeLog2 = log2size, sizeLimit = limit,
      sizeMask = 2 ^ log2size - 1, numStoredKeys = 0,
      numKeysToExpand = (3 * 2 ^ log2size) div 4\<rparr>"

definition getHash :: "hashmap \<Rightarrow> u32 \<Rightarrow> u32" where
  "getHash m i = fst (table m i)"

definition getStoreIndex :: "hashmap \<Rightarrow> u32 \<Rightarrow> u32" where
  "getStoreIndex m i = snd (table m i)"

definition setHash :: "hashmap \<Rightarrow> u32 \<Rightarrow> u32 \<Rightarrow> hashmap" where
  "setHash m i h = m\<lparr>table := (table m)(i := (h, snd (table m i)))\<rparr>"

definition setStoreIndex :: "hashmap \<Rightarrow> u32 \<Rightarrow> u32 \<Rightarrow> hashmap" where
  "setStoreIndex m i x = m\<lparr>table := (table m)(i := (fst (table m i), x))\<rparr>"

text \<open>Re-insertion during \<^verbatim>\<open>expand\<close>: the first empty bucket on the probe path of the
  hash, looked for once around the table.\<close>

fun findEmpty :: "hashmap \<Rightarrow> u32 \<Rightarrow> nat \<Rightarrow> u32" where
  "findEmpty m i 0 = i"
| "findEmpty m i (Suc n) =
     (if getHash m i = emptyBucket then i else findEmpty m ((i + 1) AND sizeMask m) n)"

definition reinsert :: "hashmap \<Rightarrow> u32 \<Rightarrow> u32 \<Rightarrow> hashmap" where
  "reinsert m h x =
     (let i = findEmpty m (h AND sizeMask m) (2 ^ sizeLog2 m)
      in (setStoreIndex (setHash m i h) i x)\<lparr>numStoredKeys := numStoredKeys m + 1\<rparr>)"

definition expand :: "hashmap \<Rightarrow> error + hashmap" where
  "expand m =
     (if sizeLimit m < sizeLog2 m + 1 then Inl ErrTableTooLarge
      else Inr (fold (\<lambda>i new.
                  let h = getHash m (of_nat i)
                  in if h = emptyBucket \<or> h = deletedBucket then new
                     else reinsert new h (getStoreIndex m (of_nat i)))
                [0..<2 ^ sizeLog2 m]
                (newHashMap (sizeLog2 m + 1) (sizeLimit m))))"

section \<open>The running checksum\<close>

text \<open>Modelled from the spec: the file of \<^verbatim>\<open>syncChecksum\<close> is not among the sources.
  The aggregate is the XOR of the terms folded in; \<^verbatim>\<open>sum\<close> and \<^verbatim>\<open>sub\<close> are the same
  transformation and ignore the time argument.\<close>

definition sum_cs :: "u64 \<Rightarrow> u64 \<Rightarrow> int \<Rightarrow> u64" where
  "sum_cs cs x t = cs XOR x"

definition sub_cs :: "u64 \<Rightarrow> u64 \<Rightarrow> int \<Rightarrow> u64" where
  "sub_cs cs x t = cs XOR x"

section \<open>The persistent map (core/pmap/pmap.go)\<close>

record PMap =
  hm :: hashmap
  st :: store
  checksum :: u64

definition New :: "nat \<Rightarrow> nat \<Rightarrow> nat \<Rightarrow> PMap" where
  "New log2size limit sz =
     \<lparr>hm = newHashMap log2size limit, st = newStore sz, checksum = 0\<rparr>"

definition Checksum :: "PMap \<Rightarrow> u64" where
  "Checksum c = checksum c"

definition Deleted :: "PMap \<Rightarrow> u64" where
  "Deleted c = deleted_st (st c)"

definition Used :: "PMap \<Rightarrow> nat" where
  "Used c = length_st (st c)"

definition Size :: "PMap \<Rightarrow> nat" where
  "Size c = size_st (st c)"

text \<open>\<^verbatim>\<open>Close\<close> syncs and unmaps; what a later \<^verbatim>\<open>Open\<close> maps again is the file.\<close>

definition Close :: "PMap \<Rightarrow> bytes" where
  "Close c = file_st (st c)"

text \<open>The probing loop. Get, Set, CAS, Del and restorePair each spell out the same loop:
  read the bucket's hash; on \<^verbatim>\<open>emptyBucket\<close> leave through the empty branch; on an equal
  hash compare the stored key and leave through the match branch; otherwise go to
  \<^verbatim>\<open>(index + 1) & sizeMask\<close>. No branch changes the map before it leaves the loop, so
  the loop is written once and returns the branch it leaves through with the bucket index
  (and the store index of the match). The \<^verbatim>\<open>col\<close> counter only prints.\<close>

datatype probe_result = EmptyAt u32 | MatchAt u32 u32

partial_function (option) probe ::
  "hashmap \<Rightarrow> store \<Rightarrow> u32 \<Rightarrow> bytes \<Rightarrow> u32 \<Rightarrow> probe_result exec option" where
  "probe m s h key index =
     (let storedHash = getHash m index in
      if storedHash = emptyBucket then Some (Return (EmptyAt index))
      else if h = storedHash then
        (let stIndex = getStoreIndex m index in
         case key_st s (unat stIndex) of
           None \<Rightarrow> Some Panic
         | Some storedKey \<Rightarrow>
             if storedKey = key then Some (Return (MatchAt index stIndex))
             else probe m s h key ((index + 1) AND sizeMask m))
      else probe m s h key ((index + 1) AND sizeMask m))"

declare probe.simps [code]

definition Get :: "PMap \<Rightarrow> u32 \<Rightarrow> bytes \<Rightarrow> bytes option exec option" where
  "Get c h32 key =
     (let h = h32; index = h AND sizeMask (hm c) in
      bindx (probe (hm c) (st c) h key index) (\<lambda>r.
        case r of
          EmptyAt _ \<Rightarrow> ret None
        | MatchAt _ stIndex \<Rightarrow>
            bindp (val_st (st c) (unat stIndex)) (\<lambda>v. ret (Some (view_bytes v)))))"

text \<open>The expansion check that opens Set, CAS and restorePair.\<close>

definition checkSpace :: "hashmap \<Rightarrow> error + hashmap" where
  "checkSpace m = (if numStoredKeys m \<ge> numKeysToExpand m then expand m else Inr m)"

definition takeBucket :: "hashmap \<Rightarrow> u32 \<Rightarrow> u32 \<Rightarrow> u32 \<Rightarrow> hashmap" where
  "takeBucket m index h storeIndex = setStoreIndex (setHash m index h) index storeIndex"

definition Set :: "PMap \<Rightarrow> u64 \<Rightarrow> bytes \<Rightarrow> bytes \<Rightarrow> (error option \<times> PMap) exec option" where
  "Set c h64 key value =
     (if length value < 8 then ret (Some ErrSetValueLen, c)
      else case checkSpace (hm c) of
        Inl err \<Rightarrow> ret (Some err, c)
      | Inr m \<Rightarrow>
          let c = c\<lparr>hm := m\<rparr>; h = hashReMap (ucast h64); index = h AND sizeMask m in
          bindx (probe m (st c) h key index) (\<lambda>r.
            case r of
              EmptyAt index \<Rightarrow>
                (case put (st c) key value of
                   Inl err \<Rightarrow> ret (Some err, c)
                 | Inr (storeIndex, s') \<Rightarrow>
                     let t = sint (Uint64 (take 8 value)) in
                     ret (None,
                       c\<lparr>st := s',
                         hm := (takeBucket m index h storeIndex)
                                 \<lparr>numStoredKeys := numStoredKeys m + 1\<rparr>,
                         checksum := sum_cs (checksum c) (h64 XOR Uint64 (take 8 value)) t\<rparr>))
            | MatchAt index stIndex \<Rightarrow>
                bindp (val_st (st c) (unat stIndex)) (\<lambda>v.
                bindp (view_to v 8) (\<lambda>v8.
                  let oldT = sint (Uint64 v8); t = sint (Uint64 (take 8 value)) in
                  if oldT > t \<or> oldT = t then ret (None, c)
                  else
                    (case put (st c) key value of
                       Inl err \<Rightarrow> ret (Some err, c)
                     | Inr (storeIndex, s') \<Rightarrow>
                         ret (None,
                           c\<lparr>st := s',
                             hm := takeBucket m index h storeIndex,
                             checksum :=
                               sum_cs (sub_cs (checksum c) (h64 XOR Uint64 v8) t)
                                 (h64 XOR Uint64 (take 8 value)) t\<rparr>))))))"

definition CAS :: "PMap \<Rightarrow> u64 \<Rightarrow> bytes \<Rightarrow> bytes \<Rightarrow> (error option \<times> PMap) exec option" where
  "CAS c h64 key value =
     (if length value < 24 then ret (Some ErrCASValueLen, c)
      else case checkSpace (hm c) of
        Inl err \<Rightarrow> ret (Some err, c)
      | Inr m \<Rightarrow>
          let c = c\<lparr>hm := m\<rparr>;
              providedTime = Uint64 (take 8 value);
              hv = Uint64 (take 8 (drop 8 value));
              t = sint (Uint64 (take 8 (drop 16 value)));
              h = hashReMap (ucast h64);
              index = h AND sizeMask m in
          bindx (probe m (st c) h key index) (\<lambda>r.
            case r of
              EmptyAt index \<Rightarrow>
                if providedTime \<noteq> 0 \<and> hv \<noteq> FNV1a64 [] then ret (Some ErrCASEmptyPair, c)
                else
                  (case put (st c) key (drop 16 value) of
                     Inl err \<Rightarrow> ret (Some err, c)
                   | Inr (storeIndex, s') \<Rightarrow>
                       ret (None,
                         c\<lparr>st := s',
                           hm := (takeBucket m index h storeIndex)
                                   \<lparr>numStoredKeys := numStoredKeys m + 1\<rparr>,
                           checksum :=
                             sum_cs (checksum c) (h64 XOR Uint64 (take 8 (drop 16 value))) t\<rparr>))
            | MatchAt index stIndex \<Rightarrow>
                bindp (val_st (st c) (unat stIndex)) (\<lambda>v.
                bindp (view_to v 8) (\<lambda>v8.
                  let oldT = Uint64 v8 in
                  if oldT \<noteq> providedTime then ret (Some ErrCASTimestamp, c)
                  else
                    bindp (view_from v 8) (\<lambda>payload.
                      if hv \<noteq> FNV1a64 payload then ret (Some ErrCASHash, c)
                      else
                        let c = c\<lparr>checksum := sub_cs (checksum c) (h64 XOR Uint64 v8) t\<rparr> in
                        (case put (st c) key (drop 16 value) of
                           Inl err \<Rightarrow> ret (Some err, c)
                         | Inr (storeIndex, s') \<Rightarrow>
                             ret (None,
                               c\<lparr>st := s',
                                 hm := takeBucket m index h storeIndex,
                                 checksum :=
                                   sum_cs (checksum c)
                                     (h64 XOR Uint64 (take 8 (drop 16 value))) t\<rparr>)))))))"

text \<open>Del reads \<^verbatim>\<open>value[:8]\<close> of the caller's slice without a length check. Go bounds
  that expression by the capacity of the slice, not by its length, so the caller's value
  is a view as well: the bytes of its backing array up to its capacity, and its length.
  Del never reads the length.\<close>

definition Del :: "PMap \<Rightarrow> u64 \<Rightarrow> bytes \<Rightarrow> view \<Rightarrow> (error option \<times> PMap) exec option" where
  "Del c h64 key value =
     (let h = hashReMap (ucast h64); index = h AND sizeMask (hm c) in
      bindx (probe (hm c) (st c) h key index) (\<lambda>r.
        case r of
          EmptyAt _ \<Rightarrow> ret (None, c)
        | MatchAt index stIndex \<Rightarrow>
            bindp (val_st (st c) (unat stIndex)) (\<lambda>v.
            bindp (view_to v 8) (\<lambda>v8.
            bindp (view_to value 8) (\<lambda>value8.
              let oldT = sint (Uint64 v8); t = sint (Uint64 value8) in
              if t < oldT then ret (None, c)
              else
                let c = c\<lparr>st := (st c)\<lparr>deleted_st :=
                             deleted_st (st c) + of_nat (12 + length key + len v)\<rparr>\<rparr>;
                    c = c\<lparr>checksum := sub_cs (checksum c) (h64 XOR Uint64 v8) t\<rparr>;
                    c = c\<lparr>hm := setHash (hm c) index deletedBucket\<rparr>
                in (case put (st c) key [] of
                      Inl err \<Rightarrow> ret (Some err, c)
                    | Inr (_, s') \<Rightarrow> ret (None, c\<lparr>st := s'\<rparr>)))))))"

text \<open>restorePair is called by Open with the key and the value views of the record at
  \<^verbatim>\<open>storeIndex\<close>. In the empty branch the bucket is taken before \<^verbatim>\<open>value[:8]\<close> is
  read; a panic there ends the run, so the order is not visible.\<close>

definition restorePair ::
  "PMap \<Rightarrow> bytes \<Rightarrow> view \<Rightarrow> u32 \<Rightarrow> (error option \<times> PMap) exec option" where
  "restorePair c key value storeIndex =
     (case checkSpace (hm c) of
        Inl err \<Rightarrow> ret (Some err, c)
      | Inr m \<Rightarrow>
          let c = c\<lparr>hm := m\<rparr>; h64 = FNV1a64 key; h = hashReMap (ucast h64);
              index = h AND sizeMask m in
          bindx (probe m (st c) h key index) (\<lambda>r.
            case r of
              EmptyAt index \<Rightarrow>
                bindp (view_to value 8) (\<lambda>value8.
                  let t = sint (Uint64 value8) in
                  ret (None,
                    c\<lparr>hm := (takeBucket m index h storeIndex)
                              \<lparr>numStoredKeys := numStoredKeys m + 1\<rparr>,
                      checksum := sum_cs (checksum c) (h64 XOR Uint64 value8) t\<rparr>))
            | MatchAt index stIndex \<Rightarrow>
                bindp (val_st (st c) (unat stIndex)) (\<lambda>v.
                bindp (view_to value 8) (\<lambda>value8.
                bindp (view_to v 8) (\<lambda>v8.
                  let t = sint (Uint64 value8);
                      c = c\<lparr>checksum := sub_cs (checksum c) (h64 XOR Uint64 v8) t\<rparr>;
                      c = c\<lparr>st := (st c)\<lparr>deleted_st :=
                                 deleted_st (st c) + of_nat (12 + length key + len v)\<rparr>\<rparr>
                  in if len value > 0
                     then ret (None,
                            c\<lparr>hm := takeBucket m index h storeIndex,
                              checksum := sum_cs (checksum c) (h64 XOR Uint64 value8) t\<rparr>)
                     else ret (None, c\<lparr>hm := setHash m index deletedBucket\<rparr>))))))"

text \<open>Open: the loop over the records of the mapped file. The error restorePair returns
  is dropped, as in the source.\<close>

partial_function (option) Open_loop :: "PMap \<Rightarrow> nat \<Rightarrow> PMap exec option" where
  "Open_loop c index =
     (case keyLen (st c) index of
        None \<Rightarrow> Some Panic
      | Some kl \<Rightarrow>
          if kl \<le> 0 then Some (Return c)
          else
            (case key_st (st c) index of
               None \<Rightarrow> Some Panic
             | Some key \<Rightarrow>
                 (case val_st (st c) index of
                    None \<Rightarrow> Some Panic
                  | Some val \<Rightarrow>
                      (case restorePair c key val (of_nat index) of
                         None \<Rightarrow> None
                       | Some Panic \<Rightarrow> Some Panic
                       | Some (Return (err, c1)) \<Rightarrow>
                           let c2 = (if len val > 0 then c1
                                     else c1\<lparr>st := (st c1)\<lparr>deleted_st :=
                                            deleted_st (st c1) + of_nat (12 + length key)\<rparr>\<rparr>)
                           in (case totalLen (st c2) index of
                                 None \<Rightarrow> Some Panic
                               | Some tlen \<Rightarrow>
                                   Open_loop
                                     (c2\<lparr>st := (st c2)\<lparr>length_st := index + (12 + tlen)\<rparr>\<rparr>)
                                     (index + (12 + tlen)))))))"

declare Open_loop.simps [code]

definition Open :: "nat \<Rightarrow> nat \<Rightarrow> bytes \<Rightarrow> PMap exec option" where
  "Open log2size limit f =
     Open_loop \<lparr>hm = newHashMap log2size limit, st = openStore f, checksum = 0\<rparr> 0"

text \<open>isPresent compares \<^verbatim>\<open>value[0:8]\<close> of the copy Get returned with
  \<^verbatim>\<open>storeValue[0:8]\<close> of the record's view. Get makes its copy with
  \<^verbatim>\<open>make([]byte, len(v))\<close>, so the capacity of the copy is its length.\<close>

definition copy_to :: "bytes \<Rightarrow> nat \<Rightarrow> bytes option" where
  "copy_to b n = (if n \<le> length b then Some (take n b) else None)"

definition isPresent :: "PMap \<Rightarrow> nat \<Rightarrow> bool exec option" where
  "isPresent c index =
     bindp (key_st (st c) index) (\<lambda>key.
       let h32 = ucast (FNV1a64 key) in
       bindx (Get c h32 key) (\<lambda>value.
         case value of
           None \<Rightarrow> ret False
         | Some value \<Rightarrow>
             bindp (val_st (st c) index) (\<lambda>storeValue.
             bindp (copy_to value 8) (\<lambda>a.
             bindp (view_to storeValue 8) (\<lambda>b. ret (a = b))))))"

text \<open>The callback may keep state of its own (a Go closure): it takes that state and
  returns it with its answer. The iterators return the state after the last call.\<close>

partial_function (option) Iterate_loop ::
  "PMap \<Rightarrow> ('s \<Rightarrow> bytes \<Rightarrow> bytes \<Rightarrow> bool \<times> 's) \<Rightarrow> nat \<Rightarrow> 's \<Rightarrow> 's exec option" where
  "Iterate_loop c foreach index acc =
     (if index < length_st (st c) then
        (case isPresent c index of
           None \<Rightarrow> None
         | Some Panic \<Rightarrow> Some Panic
         | Some (Return p) \<Rightarrow>
             if p then
               (case key_st (st c) index of
                  None \<Rightarrow> Some Panic
                | Some key \<Rightarrow>
                    (case val_st (st c) index of
                       None \<Rightarrow> Some Panic
                     | Some val \<Rightarrow>
                         (case foreach acc key (view_bytes val) of
                            (ok, acc') \<Rightarrow>
                              if \<not> ok then Some (Return acc')
                              else
                                (case totalLen (st c) index of
                                   None \<Rightarrow> Some Panic
                                 | Some tlen \<Rightarrow>
                                     Iterate_loop c foreach (index + (12 + tlen)) acc'))))
             else
               (case totalLen (st c) index of
                  None \<Rightarrow> Some Panic
                | Some tlen \<Rightarrow> Iterate_loop c foreach (index + (12 + tlen)) acc))
      else Some (Return acc))"

declare Iterate_loop.simps [code]

definition Iterate ::
  "PMap \<Rightarrow> ('s \<Rightarrow> bytes \<Rightarrow> bytes \<Rightarrow> bool \<times> 's) \<Rightarrow> 's \<Rightarrow> 's exec option" where
  "Iterate c foreach acc = Iterate_loop c foreach 0 acc"

text \<open>The conversion \<^verbatim>\<open>uint64(prev)\<close> of a signed offset.\<close>

definition to_uint64 :: "int \<Rightarrow> nat" where
  "to_uint64 p = nat (p mod 2 ^ 64)"

partial_function (option) Backwards_loop ::
  "PMap \<Rightarrow> ('s \<Rightarrow> bytes \<Rightarrow> bytes \<Rightarrow> bool \<times> 's) \<Rightarrow> nat \<Rightarrow> 's \<Rightarrow> 's exec option" where
  "Backwards_loop c foreach index acc =
     (case isPresent c index of
        None \<Rightarrow> None
      | Some Panic \<Rightarrow> Some Panic
      | Some (Return p) \<Rightarrow>
          if p then
            (case key_st (st c) index of
               None \<Rightarrow> Some Panic
             | Some key \<Rightarrow>
                 (case val_st (st c) index of
                    None \<Rightarrow> Some Panic
                  | Some val \<Rightarrow>
                      (case foreach acc key (view_bytes val) of
                         (ok, acc') \<Rightarrow>
                           if \<not> ok then Some (Return acc')
                           else
                             (case prev (st c) index of
                                None \<Rightarrow> Some Panic
                              | Some pv \<Rightarrow>
                                  if pv < 0 then Some (Return acc')
                                  else Backwards_loop c foreach (to_uint64 pv) acc'))))
          else
            (case prev (st c) index of
               None \<Rightarrow> Some Panic
             | Some pv \<Rightarrow>
                 if pv < 0 then Some (Return acc)
                 else Backwards_loop c foreach (to_uint64 pv) acc))"

declare Backwards_loop.simps [code]

definition BackwardsIterate ::
  "PMap \<Rightarrow> ('s \<Rightarrow> bytes \<Rightarrow> bytes \<Rightarrow> bool \<times> 's) \<Rightarrow> 's \<Rightarrow> 's exec option" where
  "BackwardsIterate c foreach acc =
     (let index = length_st (st c) in
      if index \<le> 0 then Some (Return acc)
      else
        (case prev (st c) index of
           None \<Rightarrow> Some Panic
         | Some pv \<Rightarrow> Backwards_loop c foreach (to_uint64 pv) acc))"

text \<open>The callback that records every pair it is given and never stops the iteration.\<close>

definition collect :: "(bytes \<times> bytes) list \<Rightarrow> bytes \<Rightarrow> bytes \<Rightarrow> bool \<times> (bytes \<times> bytes) list" where
  "collect acc k v = (True, acc @ [(k, v)])"

section \<open>Workloads\<close>

text \<open>A caller's sequence of mutations. Each call runs on the map the previous one left,
  whatever error it returned; the run gives the errors in order and the final map.\<close>

datatype op = SetOp u64 bytes bytes | DelOp u64 bytes view | CASOp u64 bytes bytes

fun step :: "PMap \<Rightarrow> op \<Rightarrow> (error option \<times> PMap) exec option" where
  "step c (SetOp h64 key value) = Set c h64 key value"
| "step c (DelOp h64 key value) = Del c h64 key value"
| "step c (CASOp h64 key value) = CAS c h64 key value"

fun run :: "PMap \<Rightarrow> op list \<Rightarrow> (error option list \<times> PMap) exec option" where
  "run c [] = ret ([], c)"
| "run c (x # xs) =
     bindx (step c x) (\<lambda>(err, c').
       bindx (run c' xs) (\<lambda>(errs, c''). ret (err # errs, c'')))"

text \<open>The 8 bytes \<^verbatim>\<open>PutUint64\<close> writes, and the spec's \<open>ts(n)\<close>: the 8 byte header of
  a value.\<close>

fun word_bytes :: "nat \<Rightarrow> u64 \<Rightarrow> bytes" where
  "word_bytes 0 w = []"
| "word_bytes (Suc n) w = ucast w # word_bytes n (drop_bit 8 w)"

definition ts :: "u64 \<Rightarrow> bytes" where
  "ts n = word_bytes 8 n"

text \<open>Keys used in the scenarios: the spec's "a", "b", "k" and "c", and two keys whose
  FNV-1a hash ends in a bucket sentinel ("ydojwsz" in \<open>0xFFFFFFFF\<close>, "2vaarqt" in
  \<open>0xFFFFFFFE\<close>).\<close>

definition key_a :: bytes where
  "key_a = [97]"

definition key_b :: bytes where
  "key_b = [98]"

definition key_c :: bytes where
  "key_c = [99]"

definition key_k :: bytes where
  "key_k = [107]"

definition key_ydojwsz :: bytes where
  "key_ydojwsz = [121, 100, 111, 106, 119, 115, 122]"

definition key_2vaarqt :: bytes where
  "key_2vaarqt = [50, 118, 97, 97, 114, 113, 116]"

definition hello :: bytes where
  "hello = [104, 101, 108, 108, 111]"

text \<open>The spec's \<open>FNV1a64(b)\<close> as the 8 bytes of a CAS value.\<close>

definition hash_bytes :: "bytes \<Rightarrow> bytes" where
  "hash_bytes b = word_bytes 8 (FNV1a64 b)"

section \<open>Notions for stating the properties\<close>

text \<open>The map a call leaves behind (the empty map when the call panics or never
  returns).\<close>

definition after :: "('e \<times> PMap) exec option \<Rightarrow> PMap" where
  "after r = (case r of Some (Return (_, c)) \<Rightarrow> c | _ \<Rightarrow> New 0 0 0)"

text \<open>The log of a store: the records written so far, oldest first, as (key, value)
  pairs with an empty value for a tombstone. \<open>store_inv s rs\<close> says that the mapped file
  is the frames of \<open>rs\<close> followed by zero bytes, that \<open>length\<close> is the end of the last
  frame, and that the store respects the 32 bit ceiling on offsets.\<close>

type_synonym log = "(bytes \<times> bytes) list"

definition rec_frame :: "bytes \<times> bytes \<Rightarrow> bytes" where
  "rec_frame r = frame (fst r) (snd r)"

definition log_bytes :: "log \<Rightarrow> bytes" where
  "log_bytes rs = concat (map rec_frame rs)"

definition offs :: "log \<Rightarrow> nat \<Rightarrow> nat" where
  "offs rs j = length (log_bytes (take j rs))"

definition store_inv :: "store \<Rightarrow> log \<Rightarrow> bool" where
  "store_inv s rs \<longleftrightarrow>
     size_st s \<le> 2 ^ 32 \<and> length_st s = length (log_bytes rs) \<and> length_st s \<le> size_st s \<and>
     file_st s = log_bytes rs @ replicate (size_st s - length_st s) 0"

text \<open>The hash map seen from outside. \<open>slot m h d\<close> is the bucket the probing loop
  reaches \<open>d\<close> steps after it started for hash \<open>h\<close>; a bucket is live when it is
  neither empty nor deleted. \<open>hm_wf\<close> is the sizing invariant of the spec
  (\<open>numStoredKeys \<le> numKeysToExpand < capacity\<close>, where \<open>numStoredKeys\<close> bounds the
  buckets that are not empty); \<open>hm_inv\<close> adds what the primitives rely on: every
  bucket that is not empty points at a record of the log whose value carries a
  timestamp, no empty bucket lies on the probe path before a live bucket,
  and no two live buckets hold the same record or the same key under the same hash.\<close>

definition slot :: "hashmap \<Rightarrow> u32 \<Rightarrow> nat \<Rightarrow> u32" where
  "slot m h d = (h + of_nat d) AND sizeMask m"

definition live :: "hashmap \<Rightarrow> u32 \<Rightarrow> bool" where
  "live m i \<longleftrightarrow> getHash m i \<noteq> emptyBucket \<and> getHash m i \<noteq> deletedBucket"

definition hm_wf :: "hashmap \<Rightarrow> bool" where
  "hm_wf m \<longleftrightarrow>
     sizeLog2 m \<le> 32 \<and> sizeLimit m \<le> 32 \<and> sizeMask m = mask (sizeLog2 m) \<and>
     numKeysToExpand m = (3 * 2 ^ sizeLog2 m) div 4 \<and>
     card {i. unat i < 2 ^ sizeLog2 m \<and> getHash m i \<noteq> emptyBucket} \<le> numStoredKeys m \<and>
     numStoredKeys m \<le> numKeysToExpand m"

definition points :: "hashmap \<Rightarrow> log \<Rightarrow> bool" where
  "points m rs \<longleftrightarrow>
     (\<forall>i. unat i < 2 ^ sizeLog2 m \<longrightarrow> getHash m i \<noteq> emptyBucket \<longrightarrow>
        (\<exists>j<length rs. unat (getStoreIndex m i) = offs rs j \<and> 8 \<le> length (snd (rs ! j))))"

definition path_ok :: "hashmap \<Rightarrow> bool" where
  "path_ok m \<longleftrightarrow>
     (\<forall>h d. d < 2 ^ sizeLog2 m \<longrightarrow> live m (slot m h d) \<longrightarrow> getHash m (slot m h d) = h \<longrightarrow>
        (\<forall>d'<d. getHash m (slot m h d') \<noteq> emptyBucket))"

definition idx_inj :: "hashmap \<Rightarrow> bool" where
  "idx_inj m \<longleftrightarrow>
     (\<forall>i j. unat i < 2 ^ sizeLog2 m \<longrightarrow> unat j < 2 ^ sizeLog2 m \<longrightarrow> live m i \<longrightarrow> live m j \<longrightarrow>
        getStoreIndex m i = getStoreIndex m j \<longrightarrow> i = j)"

definition keys_distinct :: "hashmap \<Rightarrow> store \<Rightarrow> bool" where
  "keys_distinct m s \<longleftrightarrow>
     (\<forall>i j. unat i < 2 ^ sizeLog2 m \<longrightarrow> unat j < 2 ^ sizeLog2 m \<longrightarrow> live m i \<longrightarrow> live m j \<longrightarrow>
        getHash m i = getHash m j \<longrightarrow>
        key_st s (unat (getStoreIndex m i)) = key_st s (unat (getStoreIndex m j)) \<longrightarrow> i = j)"

definition hm_inv :: "hashmap \<Rightarrow> store \<Rightarrow> log \<Rightarrow> bool" where
  "hm_inv m s rs \<longleftrightarrow>
     hm_wf m \<and> points m rs \<and> path_ok m \<and> idx_inj m \<and> keys_distinct m s"

definition pmap_inv :: "PMap \<Rightarrow> log \<Rightarrow> bool" where
  "pmap_inv c rs \<longleftrightarrow> store_inv (st c) rs \<and> hm_inv (hm c) (st c) rs"

text \<open>The match test of the probing loop: the bucket holds the probed hash and the record
  it points at has the probed key.\<close>

definition matches :: "hashmap \<Rightarrow> store \<Rightarrow> u32 \<Rightarrow> bytes \<Rightarrow> u32 \<Rightarrow> bool" where
  "matches m s h key i \<longleftrightarrow>
     getHash m i = h \<and> key_st s (unat (getStoreIndex m i)) = Some key"

text \<open>\<open>copies m m' n\<close>: the buckets of \<open>m'\<close> that are not empty are exactly the live
  buckets among the first \<open>n\<close> of \<open>m\<close> (what \<^verbatim>\<open>expand\<close> has re-inserted after \<open>n\<close>
  steps).\<close>

definition copies :: "hashmap \<Rightarrow> hashmap \<Rightarrow> nat \<Rightarrow> bool" where
  "copies m m' n \<longleftrightarrow>
     (\<forall>i'. unat i' < 2 ^ sizeLog2 m' \<longrightarrow> getHash m' i' \<noteq> emptyBucket \<longrightarrow>
        (\<exists>p<n. live m (of_nat p) \<and> getHash m' i' = getHash m (of_nat p) \<and>
           getStoreIndex m' i' = getStoreIndex m (of_nat p))) \<and>
     (\<forall>p<n. live m (of_nat p) \<longrightarrow>
        (\<exists>i'. unat i' < 2 ^ sizeLog2 m' \<and> getHash m' i' = getHash m (of_nat p) \<and>
           getStoreIndex m' i' = getStoreIndex m (of_nat p)))"

definition expand_step :: "hashmap \<Rightarrow> nat \<Rightarrow> hashmap \<Rightarrow> hashmap" where
  "expand_step m i new =
     (let h = getHash m (of_nat i)
      in if h = emptyBucket \<or> h = deletedBucket then new
         else reinsert new h (getStoreIndex m (of_nat i)))"

text \<open>\<open>holds m s h key x\<close>: some live bucket carries hash \<open>h\<close> and store index \<open>x\<close>, and
  the record at \<open>x\<close> has the key.\<close>

definition holds :: "hashmap \<Rightarrow> store \<Rightarrow> u32 \<Rightarrow> bytes \<Rightarrow> u32 \<Rightarrow> bool" where
  "holds m s h key x \<longleftrightarrow>
     (\<exists>i. unat i < 2 ^ sizeLog2 m \<and> live m i \<and> matches m s h key i \<and> getStoreIndex m i = x)"

section \<open>Scenarios on the code\<close>

lemma key_hashes:
  "FNV1a64 key_a = 0xaf63dc4c8601ec8c"
  "FNV1a64 key_ydojwsz = 0xf1a7e2d1ffffffff"
  "FNV1a64 key_2vaarqt = 0x4239b154fffffffe"
  "FNV1a64 [] = 0xcbf29ce484222325"
  by code_simp+

text \<open>C1. Get-after-Set: after a successful Set of a value of 9 bytes under the key
  "ydojwsz", whose 64-bit hash ends in \<open>0xFFFFFFFF\<close>, Get with the low 32 bits of that
  hash returns nil, not the value: Set stores under the remapped hash, Get probes with the
  hash as given.\<close>

theorem Get_after_Set_sentinel_hash_nil:
  "ucast (FNV1a64 key_ydojwsz) = emptyBucket \<and>
   bindx (Set (New 2 4 100) (FNV1a64 key_ydojwsz) key_ydojwsz (ts 1000 @ [88]))
     (\<lambda>(err, c). bindx (Get c (ucast (FNV1a64 key_ydojwsz)) key_ydojwsz)
        (\<lambda>g. ret (err, g)))
   = ret (None, None)"
  by code_simp

text \<open>C3. CAS on an absent key: the source fails only when the expected timestamp is
  non-zero and the expected hash differs from \<open>FNV1a64(nil)\<close> at once. On a fresh map a
  CAS that expects timestamp 5 with the hash of nil, and a CAS that expects timestamp 0
  with the hash of "hello", both succeed and their record is read back by Get.\<close>

theorem CAS_absent_succeeds_on_one_test:
  "bindx (CAS (New 2 4 100) (FNV1a64 key_c) key_c
            (ts 5 @ hash_bytes [] @ ts 100 @ hello))
     (\<lambda>(err, c). bindx (Get c (ucast (FNV1a64 key_c)) key_c) (\<lambda>g. ret (err, g)))
   = ret (None, Some (ts 100 @ hello)) \<and>
   bindx (CAS (New 2 4 100) (FNV1a64 key_c) key_c
            (ts 0 @ hash_bytes hello @ ts 100 @ hello))
     (\<lambda>(err, c). bindx (Get c (ucast (FNV1a64 key_c)) key_c) (\<lambda>g. ret (err, g)))
   = ret (None, Some (ts 100 @ hello))"
  by code_simp

text \<open>C4. Scenario S2 on the code: key "a" is inserted with a value of 9 bytes and
  overwritten with a newer value of 9 bytes. Both calls succeed, Get returns the newer
  value and \<open>Used()\<close> is 44, but \<open>Deleted()\<close> is 0: the overwrite branch of Set never
  adds to the counter. The same holds for a CAS that replaces the record.\<close>

theorem S2_overwrite_Used_44_Deleted_0:
  "bindx (run (New 2 4 100)
            [SetOp (FNV1a64 key_a) key_a (ts 1000 @ [88]),
             SetOp (FNV1a64 key_a) key_a (ts 2000 @ [90])])
     (\<lambda>(errs, c). bindx (Get c (ucast (FNV1a64 key_a)) key_a)
        (\<lambda>g. ret (errs, g, Used c, Deleted c)))
   = ret ([None, None], Some (ts 2000 @ [90]), 44, 0) \<and>
   bindx (run (New 2 4 100)
            [SetOp (FNV1a64 key_a) key_a (ts 1000 @ [88]),
             CASOp (FNV1a64 key_a) key_a (ts 1000 @ hash_bytes [88] @ ts 2000 @ [90])])
     (\<lambda>(errs, c). bindx (Get c (ucast (FNV1a64 key_a)) key_a)
        (\<lambda>g. ret (errs, g, Used c, Deleted c)))
   = ret ([None, None], Some (ts 2000 @ [90]), 44, 0)"
  by code_simp

text \<open>C8. The probing template: Set, Del and CAS probe with \<open>hashReMap (uint32 h64)\<close>,
  Get probes with the hash it is given. After Set has stored "ydojwsz" the remapped probe
  finds it in bucket 1, Get with the remapped hash returns the value, and Get with the
  low 32 bits of the key hash (which start the probe at bucket \<open>sizeMask\<close>) returns
  nil.\<close>

theorem Get_probes_without_remap:
  "bindx (Set (New 2 4 100) (FNV1a64 key_ydojwsz) key_ydojwsz (ts 1000 @ [88]))
     (\<lambda>(err, c).
        let h32 = ucast (FNV1a64 key_ydojwsz); h = hashReMap h32 in
        bindx (probe (hm c) (st c) h key_ydojwsz (h AND sizeMask (hm c))) (\<lambda>r.
        bindx (Get c h key_ydojwsz) (\<lambda>g1.
        bindx (Get c h32 key_ydojwsz) (\<lambda>g2.
          ret (h32, h, h32 AND sizeMask (hm c), r, g1, g2)))))
   = ret (0xFFFFFFFF, 1, 3, MatchAt 1 0, Some (ts 1000 @ [88]), None)"
  by code_simp

lemma bindp_simps [simp]:
  "bindp None f = Some Panic"
  "bindp (Some x) f = f x"
  by (simp_all add: bindp_def)

lemma bindx_simps [simp]:
  "bindx None f = None"
  "bindx (Some Panic) f = Some Panic"
  "bindx (Some (Return x)) f = f x"
  "bindx (ret x) f = f x"
  by (simp_all add: bindx_def ret_def)

text \<open>C10. Del has no length guard on its value. Set rejects a value shorter than 8 bytes
  and CAS one shorter than 24 with an error and leave the map as it is. Del performs no
  such check and never reads the length of its value: on an absent key it returns nil
  whatever the value is, and on a present key it evaluates \<^verbatim>\<open>value[:8]\<close>. That
  expression panics when the capacity of the value is below 8 (so for every value shorter
  than 8 bytes that has no spare capacity); when the capacity reaches 8 Del returns (the
  stored record carrying its timestamp), and its result is the same for every length of
  the value, so for a value shorter than 8 bytes the delete timestamp is read from bytes
  behind the value.\<close>

theorem Del_reads_value_unguarded:
  fixes c :: PMap and h64 :: u64 and key val :: bytes and "value" :: view
  defines "h \<equiv> hashReMap (ucast h64)"
  defines "r \<equiv> probe (hm c) (st c) h key (h AND sizeMask (hm c))"
  shows "(length val < 8 \<longrightarrow> Set c h64 key val = ret (Some ErrSetValueLen, c))
       \<and> (length val < 24 \<longrightarrow> CAS c h64 key val = ret (Some ErrCASValueLen, c))
       \<and> (r = ret (EmptyAt i) \<longrightarrow> Del c h64 key value = ret (None, c))
       \<and> (r = ret (MatchAt i x) \<and> length (backing value) < 8 \<longrightarrow>
            Del c h64 key value = Some Panic)
       \<and> (r = ret (MatchAt i x) \<and> 8 \<le> length (backing value) \<and>
            val_st (st c) (unat x) = Some v \<and> 8 \<le> length (backing v) \<longrightarrow>
            (\<exists>e c'. Del c h64 key value = ret (e, c')))
       \<and> Del c h64 key (value\<lparr>len := n\<rparr>) = Del c h64 key value"
proof -
  have ignored: "Del c h64 key (value\<lparr>len := n\<rparr>) = Del c h64 key value"
    by (simp add: Del_def view_to_def)
  have guards: "(length val < 8 \<longrightarrow> Set c h64 key val = ret (Some ErrSetValueLen, c))
       \<and> (length val < 24 \<longrightarrow> CAS c h64 key val = ret (Some ErrCASValueLen, c))"
    by (simp add: Set_def CAS_def)
  have del: "(r = ret (EmptyAt i) \<longrightarrow> Del c h64 key value = ret (None, c))
       \<and> (r = ret (MatchAt i x) \<and> length (backing value) < 8 \<longrightarrow>
            Del c h64 key value = Some Panic)
       \<and> (r = ret (MatchAt i x) \<and> 8 \<le> length (backing value) \<and>
            val_st (st c) (unat x) = Some v \<and> 8 \<le> length (backing v) \<longrightarrow>
            (\<exists>e c'. Del c h64 key value = ret (e, c')))"
    unfolding r_def h_def
    by (auto simp: Del_def Let_def view_to_def bindp_def
        split: option.splits sum.splits prod.splits)
  show ?thesis using ignored guards del by blast
qed

theorem Del_reads_value_unguarded_witness:
  "Del (after (Set (New 2 4 100) (FNV1a64 key_a) key_a (ts 1000 @ [88]))) (FNV1a64 key_a) key_a
      \<lparr>backing = [1, 2, 3], len = 3\<rparr> = Some Panic
   \<and> (\<exists>e c'. Del (after (Set (New 2 4 100) (FNV1a64 key_a) key_a (ts 1000 @ [88])))
          (FNV1a64 key_a) key_a \<lparr>backing = ts 2000 @ ts 0, len = 3\<rparr> = ret (e, c'))
   \<and> Del (New 2 4 100) (FNV1a64 key_a) key_a \<lparr>backing = [1, 2, 3], len = 3\<rparr>
       = ret (None, New 2 4 100)
   \<and> Set (New 2 4 100) (FNV1a64 key_a) key_a [1, 2, 3] = ret (Some ErrSetValueLen, New 2 4 100)
   \<and> CAS (New 2 4 100) (FNV1a64 key_a) key_a (ts 0 @ hash_bytes [])
       = ret (Some ErrCASValueLen, New 2 4 100)"
proof -
  let ?c = "after (Set (New 2 4 100) (FNV1a64 key_a) key_a (ts 1000 @ [88]))"
  let ?h = "hashReMap (ucast (FNV1a64 key_a))"
  let ?short = "\<lparr>backing = [1, 2, 3 :: byte], len = 3\<rparr>"
  let ?spare = "\<lparr>backing = ts 2000 @ ts 0, len = 3\<rparr>"
  have m: "probe (hm ?c) (st ?c) ?h key_a (?h AND sizeMask (hm ?c)) = ret (MatchAt 0 0)"
    by code_simp
  have e: "probe (hm (New 2 4 100)) (st (New 2 4 100)) ?h key_a
             (?h AND sizeMask (hm (New 2 4 100))) = ret (EmptyAt 0)"
    by code_simp
  have v: "val_st (st ?c) (unat (0 :: u32)) =
             Some \<lparr>backing = drop 9 (file_st (st ?c)), len = 9\<rparr>"
    by code_simp
  have vb: "8 \<le> length (backing \<lparr>backing = drop 9 (file_st (st ?c)), len = 9\<rparr>)"
    by code_simp
  have l3: "length [1, 2, 3 :: byte] < 8" by simp
  have l16: "length (ts 0 @ hash_bytes []) < 24" by code_simp
  have c16: "8 \<le> length (backing ?spare)" by code_simp
  show ?thesis
    using Del_reads_value_unguarded [of "[1, 2, 3]" ?c "FNV1a64 key_a" key_a 0 ?short 0]
      Del_reads_value_unguarded [of "[1, 2, 3]" ?c "FNV1a64 key_a" key_a 0 ?spare 0
        "\<lparr>backing = drop 9 (file_st (st ?c)), len = 9\<rparr>"]
      Del_reads_value_unguarded [of "[1, 2, 3]" "New 2 4 100" "FNV1a64 key_a" key_a 0 ?short]
      Del_reads_value_unguarded [of "ts 0 @ hash_bytes []" "New 2 4 100" "FNV1a64 key_a" key_a]
      m e v vb l3 l16 c16
    by simp
qed

section \<open>The store and its log\<close>

lemma length_le_bytes [simp]: "length (le_bytes n v) = n"
  by (induction n arbitrary: v) simp_all

lemma le_uint_le_bytes: "v < 256 ^ n \<Longrightarrow> le_uint (le_bytes n v) = v"
proof (induction n arbitrary: v)
  case 0
  then show ?case by simp
next
  case (Suc n)
  have "v div 256 < 256 ^ n"
    using Suc.prems by (simp add: less_mult_imp_div_less mult.commute)
  then have "le_uint (le_bytes n (v div 256)) = v div 256"
    by (rule Suc.IH)
  moreover have "unat (word_of_nat (v mod 256) :: byte) = v mod 256"
    by (simp add: unat_of_nat)
  ultimately show ?case by simp
qed

lemma le_uint_le_bytes4: "v < 2 ^ 32 \<Longrightarrow> le_uint (le_bytes 4 v) = v"
  by (rule le_uint_le_bytes) simp

lemma le_uint_replicate0 [simp]: "le_uint (replicate n 0) = 0"
  by (induction n) simp_all

lemma length_frame [simp]: "length (frame k v) = 12 + length k + length v"
  by (simp add: frame_def)

lemma length_rec_frame [simp]: "length (rec_frame r) = 12 + length (fst r) + length (snd r)"
  by (simp add: rec_frame_def)

lemma log_bytes_simps [simp]:
  "log_bytes [] = []"
  "log_bytes (r # rs) = rec_frame r @ log_bytes rs"
  "log_bytes (rs @ rs') = log_bytes rs @ log_bytes rs'"
  by (simp_all add: log_bytes_def)

lemma log_bytes_split:
  "j < length rs \<Longrightarrow>
   log_bytes rs = log_bytes (take j rs) @ rec_frame (rs ! j) @ log_bytes (drop (Suc j) rs)"
  by (metis Cons_nth_drop_Suc append_take_drop_id log_bytes_simps(2,3))

lemma offs_simps [simp]:
  "offs rs 0 = 0"
  "offs rs (length rs) = length (log_bytes rs)"
  by (simp_all add: offs_def)

lemma offs_Suc:
  "j < length rs \<Longrightarrow> offs rs (Suc j) = offs rs j + (12 + length (fst (rs ! j)) + length (snd (rs ! j)))"
  by (simp add: offs_def take_Suc_conv_app_nth)

lemma offs_append [simp]: "j \<le> length rs \<Longrightarrow> offs (rs @ rs') j = offs rs j"
  by (simp add: offs_def)

lemma offs_mono: "i \<le> j \<Longrightarrow> j \<le> length rs \<Longrightarrow> offs rs i \<le> offs rs j"
proof (induction j)
  case 0
  then show ?case by simp
next
  case (Suc j)
  show ?case
  proof (cases "i = Suc j")
    case True
    then show ?thesis by simp
  next
    case False
    with Suc have "offs rs i \<le> offs rs j" by simp
    with Suc.prems show ?thesis by (simp add: offs_Suc)
  qed
qed

lemma offs_strict: "i < j \<Longrightarrow> j \<le> length rs \<Longrightarrow> offs rs i + 12 \<le> offs rs j"
  using offs_mono [of "Suc i" j rs] by (simp add: offs_Suc)

lemma offs_inj: "i < length rs \<Longrightarrow> j < length rs \<Longrightarrow> offs rs i = offs rs j \<Longrightarrow> i = j"
  using offs_strict [of i j rs] offs_strict [of j i rs] by (cases i j rule: linorder_cases) auto

lemma offs_end: "j < length rs \<Longrightarrow>
  offs rs j + (12 + length (fst (rs ! j)) + length (snd (rs ! j))) \<le> length (log_bytes rs)"
  using offs_mono [of "Suc j" "length rs" rs] by (simp add: offs_Suc)

text \<open>Reading the record whose frame starts at the end of \<open>pre\<close>.\<close>

lemma read_frame:
  assumes f: "file_st s = pre @ frame k v @ post"
    and k: "length k < 2 ^ 32" and v: "length v < 2 ^ 32"
  shows "keyLen s (length pre) = Some (length k)"
    and "valLen s (length pre) = Some (length v)"
    and "totalLen s (length pre) = Some (length k + length v)"
    and "key_st s (length pre) = Some k"
    and "val_st s (length pre) =
           Some \<lparr>backing = v @ le_bytes 4 (length k + length v) @ post, len = length v\<rparr>"
proof -
  show kl: "keyLen s (length pre) = Some (length k)"
    using k by (simp add: keyLen_def slice_def f frame_def le_uint_le_bytes4)
  show vl: "valLen s (length pre) = Some (length v)"
    using v by (simp add: valLen_def slice_def f frame_def le_uint_le_bytes4)
  show "totalLen s (length pre) = Some (length k + length v)"
    by (simp add: totalLen_def kl vl)
  show "key_st s (length pre) = Some k"
    by (simp add: key_st_def kl slice_def f frame_def)
  show "val_st s (length pre) =
           Some \<lparr>backing = v @ le_bytes 4 (length k + length v) @ post, len = length v\<rparr>"
    by (simp add: val_st_def kl vl f frame_def)
qed

lemma store_inv_file:
  assumes "store_inv s rs" and "j < length rs"
  shows "file_st s = log_bytes (take j rs) @ frame (fst (rs ! j)) (snd (rs ! j)) @
           (log_bytes (drop (Suc j) rs) @ replicate (size_st s - length_st s) 0)"
  using assms log_bytes_split [of j rs] by (simp add: store_inv_def rec_frame_def)

lemma store_inv_bounds:
  assumes "store_inv s rs" and "j < length rs"
  shows "length (fst (rs ! j)) < 2 ^ 32" and "length (snd (rs ! j)) < 2 ^ 32"
    and "offs rs j < 2 ^ 32" and "offs rs j + 12 \<le> length_st s"
proof -
  have "offs rs j + (12 + length (fst (rs ! j)) + length (snd (rs ! j))) \<le> length (log_bytes rs)"
    using assms(2) by (rule offs_end)
  moreover have "length (log_bytes rs) \<le> 2 ^ 32" "length_st s = length (log_bytes rs)"
    using assms(1) by (simp_all add: store_inv_def)
  ultimately show "length (fst (rs ! j)) < 2 ^ 32" and "length (snd (rs ! j)) < 2 ^ 32"
    and "offs rs j < 2 ^ 32" and "offs rs j + 12 \<le> length_st s"
    by simp_all
qed

lemma store_inv_read:
  assumes "store_inv s rs" and "j < length rs"
  shows "keyLen s (offs rs j) = Some (length (fst (rs ! j)))"
    and "valLen s (offs rs j) = Some (length (snd (rs ! j)))"
    and "totalLen s (offs rs j) = Some (length (fst (rs ! j)) + length (snd (rs ! j)))"
    and "key_st s (offs rs j) = Some (fst (rs ! j))"
    and "val_st s (offs rs j) =
           Some \<lparr>backing = snd (rs ! j) @ le_bytes 4 (length (fst (rs ! j)) + length (snd (rs ! j))) @
                   (log_bytes (drop (Suc j) rs) @ replicate (size_st s - length_st s) 0),
                 len = length (snd (rs ! j))\<rparr>"
  using read_frame [OF store_inv_file [OF assms] store_inv_bounds(1,2) [OF assms]]
  by (simp_all add: offs_def)

lemma store_inv_newStore: "sz \<le> 2 ^ 32 \<Longrightarrow> store_inv (newStore sz) []"
  by (simp add: store_inv_def newStore_def size_st_def)

lemma put_full: "size_st s < length_st s + 12 + length k + length v \<Longrightarrow> put s k v = Inl ErrStoreFull"
  by (simp add: put_def)

lemma put_Inr:
  assumes "put s k v = Inr (x, s')"
  shows "x = of_nat (length_st s)" and "length_st s + 12 + length k + length v \<le> size_st s"
    and "length_st s' = length_st s + 12 + length k + length v"
    and "deleted_st s' = deleted_st s" and "size_st s' = size_st s \<or> length (file_st s) < length_st s"
  using assms by (auto simp: put_def size_st_def write_at_def split: if_splits)

lemma put_store_inv:
  assumes inv: "store_inv s rs" and put: "put s k v = Inr (x, s')"
  shows "store_inv s' (rs @ [(k, v)])" and "unat x = length_st s" and "length_st s = offs (rs @ [(k, v)]) (length rs)"
proof -
  let ?L = "length_st s" and ?n = "12 + length k + length v"
  from put have room: "?L + ?n \<le> size_st s" and x: "x = of_nat ?L"
    and s': "s' = s\<lparr>file_st := write_at (file_st s) ?L (frame k v), length_st := ?L + ?n\<rparr>"
    by (auto simp: put_def split: if_splits)
  from inv have sz: "size_st s \<le> 2 ^ 32" and L: "?L = length (log_bytes rs)"
    and f: "file_st s = log_bytes rs @ replicate (size_st s - ?L) 0"
    by (simp_all add: store_inv_def)
  have rep: "replicate (size_st s - ?L) (0::byte) = replicate ?n 0 @ replicate (size_st s - (?L + ?n)) 0"
    using room by (simp flip: replicate_add)
  have w: "write_at (file_st s) ?L (frame k v) =
             log_bytes rs @ frame k v @ replicate (size_st s - (?L + ?n)) 0"
    unfolding write_at_def by (subst (1 2) f, subst (1 2) rep) (simp add: L)
  have fs': "file_st s' = log_bytes (rs @ [(k, v)]) @ replicate (size_st s - (?L + ?n)) 0"
    by (simp add: s' w rec_frame_def)
  have ls': "length_st s' = length (log_bytes (rs @ [(k, v)]))"
    by (simp add: s' L)
  have size': "size_st s' = size_st s"
    using room by (simp add: size_st_def [of s'] fs') (simp add: L)
  show "store_inv s' (rs @ [(k, v)])"
    unfolding store_inv_def size' using sz room fs' ls' by (simp add: L)
  have "?L < 2 ^ 32" using room sz by simp
  then show "unat x = ?L" by (simp add: x unat_of_nat)
  show "?L = offs (rs @ [(k, v)]) (length rs)" by (simp add: L)
qed

section \<open>Bucket indexes\<close>

lemma unat_and_mask: "unat ((w::u32) AND mask k) = unat w mod 2 ^ k"
proof -
  have "w AND mask k = take_bit k w"
    by (simp add: take_bit_eq_mask)
  then have "unat (w AND mask k) = take_bit k (unat w)"
    by (simp only: unsigned_take_bit_eq)
  then show ?thesis
    by (simp add: take_bit_eq_mod)
qed

lemma unat_slot:
  assumes "sizeMask m = mask k" and "k \<le> 32"
  shows "unat (slot m h d) = (unat h + d) mod 2 ^ k"
proof -
  have dvd: "(2::nat) ^ k dvd 2 ^ 32"
    using assms(2) by (rule le_imp_power_dvd)
  have "unat (h + of_nat d) = (unat h + d mod 2 ^ 32) mod 2 ^ 32"
    by (simp add: unat_word_ariths unat_of_nat)
  also have "\<dots> = (unat h + d) mod 2 ^ 32"
    by (simp add: mod_add_right_eq)
  finally show ?thesis
    using dvd by (simp add: slot_def assms(1) unat_and_mask mod_mod_cancel)
qed

lemma slot_0: "slot m h 0 = h AND sizeMask m"
  by (simp add: slot_def)

lemma slot_Suc:
  assumes "sizeMask m = mask k" and "k \<le> 32"
  shows "(slot m h d + 1) AND sizeMask m = slot m h (Suc d)"
proof -
  have dvd: "(2::nat) ^ k dvd 2 ^ 32"
    using assms(2) by (rule le_imp_power_dvd)
  have "unat ((slot m h d + 1) AND sizeMask m) = (unat (slot m h d) + 1) mod 2 ^ 32 mod 2 ^ k"
    by (simp add: assms(1) unat_and_mask unat_word_ariths)
  also have "\<dots> = (unat (slot m h d) + 1) mod 2 ^ k"
    using dvd by (simp add: mod_mod_cancel)
  also have "\<dots> = ((unat h + d) mod 2 ^ k + 1) mod 2 ^ k"
    by (simp add: unat_slot [OF assms])
  also have "\<dots> = (unat h + Suc d) mod 2 ^ k"
    by (simp add: mod_Suc_eq)
  also have "\<dots> = unat (slot m h (Suc d))"
    by (simp add: unat_slot [OF assms])
  finally show ?thesis by (simp add: word_unat_eq_iff)
qed

lemma slot_less:
  assumes "sizeMask m = mask k" and "k \<le> 32"
  shows "unat (slot m h d) < 2 ^ k"
  by (simp add: unat_slot [OF assms])

lemma mod_add_cancel_nat:
  assumes "(a + b) mod n = (a + c) mod (n::nat)" and "b < n" and "c < n"
  shows "b = c"
proof -
  have aux: "y = x" if "x \<le> y" "y < n" "(a + x) mod n = (a + y) mod n" for x y
  proof -
    have "n dvd (a + y) - (a + x)"
      using that by (metis add_le_cancel_left mod_eq_dvd_iff_nat)
    then have "n dvd y - x" by simp
    then show ?thesis using that by (metis dvd_imp_le less_imp_diff_less not_less zero_less_diff le_neq_implies_less)
  qed
  show ?thesis
  proof (cases "b \<le> c")
    case True
    then show ?thesis using aux [of b c] assms by simp
  next
    case False
    then show ?thesis using aux [of c b] assms by simp
  qed
qed

lemma mod_surj_nat:
  assumes "i < n"
  shows "(a + (i + (n - a mod n)) mod n) mod n = (i::nat)"
proof -
  have "a mod n < n" using assms by simp
  have "(a + (i + (n - a mod n)) mod n) mod n = (a mod n + (i + (n - a mod n))) mod n"
    by (simp add: mod_add_eq mod_add_right_eq mod_add_left_eq)
  also have "a mod n + (i + (n - a mod n)) = i + n"
    using \<open>a mod n < n\<close> by simp
  also have "(i + n) mod n = i" using assms by simp
  finally show ?thesis .
qed

lemma card_unat_less:
  assumes "n \<le> 2 ^ 32"
  shows "card {i :: u32. unat i < n} = n"
proof -
  have eq: "{i :: u32. unat i < n} = of_nat ` {..<n}"
  proof (intro set_eqI iffI)
    fix i :: u32
    assume "i \<in> {i. unat i < n}"
    then have "unat i \<in> {..<n}" "i = of_nat (unat i)" by simp_all
    then show "i \<in> of_nat ` {..<n}" by (rule_tac image_eqI)
  next
    fix i :: u32
    assume "i \<in> of_nat ` {..<n}"
    then obtain x where "x < n" "i = of_nat x" by auto
    then show "i \<in> {i. unat i < n}" using assms by (simp add: unat_of_nat)
  qed
  have "inj_on (of_nat :: nat \<Rightarrow> u32) {..<n}"
  proof (rule inj_onI)
    fix x y assume "x \<in> {..<n}" "y \<in> {..<n}" "(of_nat x :: u32) = of_nat y"
    then have "unat (of_nat x :: u32) = unat (of_nat y :: u32)" "x < 2 ^ 32" "y < 2 ^ 32"
      using assms by simp_all
    then show "x = y" by (simp add: unat_of_nat)
  qed
  then show ?thesis by (simp add: eq card_image)
qed

lemma slot_inj:
  assumes "sizeMask m = mask k" and "k \<le> 32"
    and "slot m h d = slot m h d'" and "d < 2 ^ k" and "d' < 2 ^ k"
  shows "d = d'"
proof -
  have "(unat h + d) mod 2 ^ k = (unat h + d') mod 2 ^ k"
    using assms(3) unat_slot [OF assms(1,2), of h d] unat_slot [OF assms(1,2), of h d'] by simp
  then show ?thesis using assms(4,5) by (rule mod_add_cancel_nat)
qed

lemma slot_surj:
  assumes "sizeMask m = mask k" and "k \<le> 32" and "unat i < 2 ^ k"
  shows "\<exists>d < 2 ^ k. slot m h d = i"
proof -
  let ?d = "(unat i + (2 ^ k - unat h mod 2 ^ k)) mod 2 ^ k"
  have "unat (slot m h ?d) = unat i"
    using mod_surj_nat [OF assms(3), of "unat h"] by (simp add: unat_slot [OF assms(1,2)])
  then have "slot m h ?d = i" by (simp add: word_unat_eq_iff)
  moreover have "?d < 2 ^ k" by simp
  ultimately show ?thesis by blast
qed

section \<open>The probing loop\<close>

lemma probe_at_empty:
  "getHash m i = emptyBucket \<Longrightarrow> probe m s h key i = ret (EmptyAt i)"
  by (subst probe.simps) (simp add: ret_def)

lemma probe_at_match:
  assumes "getHash m i = h" and "h \<noteq> emptyBucket"
    and "key_st s (unat (getStoreIndex m i)) = Some key"
  shows "probe m s h key i = ret (MatchAt i (getStoreIndex m i))"
  using assms by (subst probe.simps) (simp add: ret_def)

lemma probe_step:
  assumes "sizeMask m = mask k" and "k \<le> 32"
    and "getHash m (slot m h d) \<noteq> emptyBucket"
    and "getHash m (slot m h d) = h \<Longrightarrow>
           \<exists>k'. key_st s (unat (getStoreIndex m (slot m h d))) = Some k' \<and> k' \<noteq> key"
  shows "probe m s h key (slot m h d) = probe m s h key (slot m h (Suc d))"
  using assms(3,4) by (subst probe.simps) (auto simp: Let_def slot_Suc [OF assms(1,2)])

lemma probe_skip:
  assumes "sizeMask m = mask k" and "k \<le> 32"
    and "\<forall>d'<d. getHash m (slot m h d') \<noteq> emptyBucket \<and>
           (getHash m (slot m h d') = h \<longrightarrow>
              (\<exists>k'. key_st s (unat (getStoreIndex m (slot m h d'))) = Some k' \<and> k' \<noteq> key))"
  shows "probe m s h key (h AND sizeMask m) = probe m s h key (slot m h d)"
  using assms(3)
proof (induction d)
  case 0
  show ?case by (simp add: slot_0)
next
  case (Suc d)
  then have "probe m s h key (h AND sizeMask m) = probe m s h key (slot m h d)"
    by simp
  also have "\<dots> = probe m s h key (slot m h (Suc d))"
    using Suc.prems by (intro probe_step [OF assms(1,2)]) auto
  finally show ?case .
qed

lemma card_slots: "k \<le> 32 \<Longrightarrow> card {i :: u32. unat i < 2 ^ k} = 2 ^ k"
  by (rule card_unat_less) (rule power_increasing, simp_all)

lemma three_quarters_less: "0 < n \<Longrightarrow> (3 * n) div 4 < (n::nat)"
  by arith

lemma hm_wf_empty:
  assumes "hm_wf m"
  shows "\<exists>i. unat i < 2 ^ sizeLog2 m \<and> getHash m i = emptyBucket"
proof (rule ccontr)
  assume "\<not> ?thesis"
  then have "{i. unat i < 2 ^ sizeLog2 m \<and> getHash m i \<noteq> emptyBucket} = {i :: u32. unat i < 2 ^ sizeLog2 m}"
    by auto
  moreover have "sizeLog2 m \<le> 32"
    using assms by (simp add: hm_wf_def)
  ultimately have "card {i. unat i < 2 ^ sizeLog2 m \<and> getHash m i \<noteq> emptyBucket} = 2 ^ sizeLog2 m"
    by (simp add: card_slots)
  moreover have "(3 * 2 ^ sizeLog2 m) div 4 < (2::nat) ^ sizeLog2 m"
    by (rule three_quarters_less) simp
  ultimately show False using assms by (simp add: hm_wf_def)
qed

lemma hm_inv_wf: "hm_inv m s rs \<Longrightarrow> hm_wf m"
  by (simp add: hm_inv_def)

lemma hm_wf_mask: "hm_wf m \<Longrightarrow> sizeMask m = mask (sizeLog2 m)"
  and hm_wf_log2: "hm_wf m \<Longrightarrow> sizeLog2 m \<le> 32"
  by (simp_all add: hm_wf_def)

lemma bucket_record:
  assumes "hm_inv m s rs" and "unat i < 2 ^ sizeLog2 m" and "getHash m i \<noteq> emptyBucket"
  obtains j where "j < length rs" and "unat (getStoreIndex m i) = offs rs j"
    and "8 \<le> length (snd (rs ! j))"
  using assms unfolding hm_inv_def points_def by blast

lemma bucket_key:
  assumes "hm_inv m s rs" and "store_inv s rs"
    and "unat i < 2 ^ sizeLog2 m" and "getHash m i \<noteq> emptyBucket"
  shows "\<exists>k. key_st s (unat (getStoreIndex m i)) = Some k"
proof -
  obtain j where "j < length rs" "unat (getStoreIndex m i) = offs rs j"
    using assms(1,3,4) by (rule bucket_record)
  then show ?thesis using store_inv_read(4) [OF assms(2), of j] by simp
qed

lemma probe_cases:
  assumes inv: "hm_inv m s rs" and st: "store_inv s rs"
  obtains (empty) d where "d < 2 ^ sizeLog2 m"
      and "probe m s h key (h AND sizeMask m) = ret (EmptyAt (slot m h d))"
      and "getHash m (slot m h d) = emptyBucket"
      and "\<forall>d'<d. getHash m (slot m h d') \<noteq> emptyBucket \<and> \<not> matches m s h key (slot m h d')"
  | (match) d where "d < 2 ^ sizeLog2 m"
      and "probe m s h key (h AND sizeMask m) =
             ret (MatchAt (slot m h d) (getStoreIndex m (slot m h d)))"
      and "getHash m (slot m h d) \<noteq> emptyBucket" and "matches m s h key (slot m h d)"
      and "\<forall>d'<d. getHash m (slot m h d') \<noteq> emptyBucket \<and> \<not> matches m s h key (slot m h d')"
proof -
  note wf = hm_wf_mask [OF hm_inv_wf [OF inv]] hm_wf_log2 [OF hm_inv_wf [OF inv]]
  let ?P = "\<lambda>d. getHash m (slot m h d) = emptyBucket \<or> matches m s h key (slot m h d)"
  obtain i where i: "unat i < 2 ^ sizeLog2 m" "getHash m i = emptyBucket"
    using hm_wf_empty [OF hm_inv_wf [OF inv]] by blast
  obtain d0 where d0: "d0 < 2 ^ sizeLog2 m" "slot m h d0 = i"
    using slot_surj [OF wf i(1)] by blast
  then have "?P d0" using i by simp
  then obtain d where d: "?P d" "\<forall>d'<d. \<not> ?P d'"
    using exists_least_iff [of ?P] by blast
  have dlt: "d < 2 ^ sizeLog2 m"
    using d(2) \<open>?P d0\<close> d0(1) by (metis not_less_iff_gr_or_eq order_less_trans)
  have before: "\<forall>d'<d. getHash m (slot m h d') \<noteq> emptyBucket \<and> \<not> matches m s h key (slot m h d')"
    using d(2) by blast
  have skip: "\<forall>d'<d. getHash m (slot m h d') \<noteq> emptyBucket \<and>
           (getHash m (slot m h d') = h \<longrightarrow>
              (\<exists>k'. key_st s (unat (getStoreIndex m (slot m h d'))) = Some k' \<and> k' \<noteq> key))"
  proof (intro allI impI conjI)
    fix d' assume "d' < d"
    then show ne: "getHash m (slot m h d') \<noteq> emptyBucket" using before by blast
    assume hh: "getHash m (slot m h d') = h"
    obtain k' where "key_st s (unat (getStoreIndex m (slot m h d'))) = Some k'"
      using bucket_key [OF inv st slot_less [OF wf] ne] by blast
    moreover have "\<not> matches m s h key (slot m h d')" using before \<open>d' < d\<close> by blast
    ultimately show "\<exists>k'. key_st s (unat (getStoreIndex m (slot m h d'))) = Some k' \<and> k' \<noteq> key"
      using hh by (auto simp: matches_def)
  qed
  have start: "probe m s h key (h AND sizeMask m) = probe m s h key (slot m h d)"
    by (rule probe_skip [OF wf skip])
  show thesis
  proof (cases "getHash m (slot m h d) = emptyBucket")
    case True
    then show ?thesis using empty [OF dlt _ True before] start probe_at_empty by simp
  next
    case False
    with d(1) have mt: "matches m s h key (slot m h d)" by simp
    then have "probe m s h key (slot m h d) = ret (MatchAt (slot m h d) (getStoreIndex m (slot m h d)))"
      using False by (intro probe_at_match) (auto simp: matches_def)
    then show ?thesis using match [OF dlt _ False mt before] start by simp
  qed
qed

text \<open>A live bucket with the probed hash and key is where the loop leaves through its
  match branch; without one the loop leaves through the first empty bucket on the path.\<close>

lemma probe_found:
  assumes inv: "hm_inv m s rs" and st: "store_inv s rs"
    and i: "unat i < 2 ^ sizeLog2 m" "live m i" "matches m s h key i"
  shows "probe m s h key (h AND sizeMask m) = ret (MatchAt i (getStoreIndex m i))"
proof -
  note wf = hm_wf_mask [OF hm_inv_wf [OF inv]] hm_wf_log2 [OF hm_inv_wf [OF inv]]
  obtain d0 where d0: "d0 < 2 ^ sizeLog2 m" "slot m h d0 = i"
    using slot_surj [OF wf i(1)] by blast
  have hi: "getHash m i = h" using i(3) by (simp add: matches_def)
  have path: "\<forall>d'<d0. getHash m (slot m h d') \<noteq> emptyBucket"
    using inv d0 i(2) hi unfolding hm_inv_def path_ok_def by blast
  have hlive: "h \<noteq> emptyBucket" "h \<noteq> deletedBucket"
    using i(2) hi by (auto simp: live_def)
  show ?thesis
  proof (cases rule: probe_cases [OF inv st, of h key, case_names empty match])
    case (empty d)
    have "d < d0 \<or> d = d0 \<or> d0 < d" by arith
    then show ?thesis
    proof (elim disjE)
      assume "d < d0" with path empty(3) show ?thesis by blast
    next
      assume "d = d0" with empty(3) d0(2) i(2) show ?thesis by (simp add: live_def)
    next
      assume "d0 < d" with empty(4) d0(2) i(3) show ?thesis by blast
    qed
  next
    case (match d)
    have hd: "getHash m (slot m h d) = h" using match(4) by (simp add: matches_def)
    have "live m (slot m h d)" using hd hlive by (simp add: live_def)
    moreover have "key_st s (unat (getStoreIndex m (slot m h d))) = key_st s (unat (getStoreIndex m i))"
      using match(4) i(3) by (simp add: matches_def)
    ultimately have "slot m h d = i"
      using inv i(1,2) hi hd slot_less [OF wf, of h d] unfolding hm_inv_def keys_distinct_def by blast
    then show ?thesis using match(2) by simp
  qed
qed

lemma probe_absent:
  assumes inv: "hm_inv m s rs" and st: "store_inv s rs"
    and no: "\<forall>i. unat i < 2 ^ sizeLog2 m \<longrightarrow> getHash m i \<noteq> emptyBucket \<longrightarrow> \<not> matches m s h key i"
  obtains d where "d < 2 ^ sizeLog2 m"
    and "probe m s h key (h AND sizeMask m) = ret (EmptyAt (slot m h d))"
    and "getHash m (slot m h d) = emptyBucket"
    and "\<forall>d'<d. getHash m (slot m h d') \<noteq> emptyBucket"
proof (cases rule: probe_cases [OF inv st, of h key, case_names empty match])
  case (empty d)
  then show ?thesis using that by blast
next
  case (match d)
  note wf = hm_wf_mask [OF hm_inv_wf [OF inv]] hm_wf_log2 [OF hm_inv_wf [OF inv]]
  from no match(3,4) slot_less [OF wf, of h d] show ?thesis by blast
qed

section \<open>Bucket updates\<close>

lemma takeBucket_simps [simp]:
  "getHash (takeBucket m i h x) j = (if j = i then h else getHash m j)"
  "getStoreIndex (takeBucket m i h x) j = (if j = i then x else getStoreIndex m j)"
  "sizeLog2 (takeBucket m i h x) = sizeLog2 m"
  "sizeLimit (takeBucket m i h x) = sizeLimit m"
  "sizeMask (takeBucket m i h x) = sizeMask m"
  "numStoredKeys (takeBucket m i h x) = numStoredKeys m"
  "numKeysToExpand (takeBucket m i h x) = numKeysToExpand m"
  by (simp_all add: takeBucket_def setStoreIndex_def setHash_def getHash_def getStoreIndex_def)

lemma setHash_simps [simp]:
  "getHash (setHash m i h) j = (if j = i then h else getHash m j)"
  "getStoreIndex (setHash m i h) j = getStoreIndex m j"
  "sizeLog2 (setHash m i h) = sizeLog2 m"
  "sizeLimit (setHash m i h) = sizeLimit m"
  "sizeMask (setHash m i h) = sizeMask m"
  "numStoredKeys (setHash m i h) = numStoredKeys m"
  "numKeysToExpand (setHash m i h) = numKeysToExpand m"
  by (simp_all add: setHash_def getHash_def getStoreIndex_def)

lemma numStoredKeys_update_simps [simp]:
  "getHash (m\<lparr>numStoredKeys := n\<rparr>) j = getHash m j"
  "getStoreIndex (m\<lparr>numStoredKeys := n\<rparr>) j = getStoreIndex m j"
  by (simp_all add: getHash_def getStoreIndex_def)

lemma slot_cong: "sizeMask m' = sizeMask m \<Longrightarrow> slot m' h d = slot m h d"
  by (simp add: slot_def)

lemma hashReMap_live [simp]:
  "hashReMap h \<noteq> emptyBucket" "hashReMap h \<noteq> deletedBucket"
  by (auto simp: hashReMap_def emptyBucket_def deletedBucket_def)

text \<open>Filling the first empty bucket on the probe path of \<open>h\<close>.\<close>

lemma path_ok_fill:
  assumes ok: "path_ok m" and wf: "sizeMask m = mask (sizeLog2 m)" "sizeLog2 m \<le> 32"
    and same: "sizeLog2 m' = sizeLog2 m" "sizeMask m' = sizeMask m"
    and others: "\<forall>j. j \<noteq> slot m h d \<longrightarrow> getHash m' j = getHash m j"
    and new: "getHash m' (slot m h d) = h" "h \<noteq> emptyBucket"
    and d: "d < 2 ^ sizeLog2 m" "\<forall>d'<d. getHash m (slot m h d') \<noteq> emptyBucket"
      "getHash m (slot m h d) = emptyBucket"
  shows "path_ok m'"
  unfolding path_ok_def
proof (intro allI impI)
  fix h' d0 d'
  assume d0: "d0 < 2 ^ sizeLog2 m'" and lv: "live m' (slot m' h' d0)"
    and hh: "getHash m' (slot m' h' d0) = h'" and d': "d' < d0"
  have sl: "\<And>a b. slot m' a b = slot m a b" using same(2) by (rule slot_cong)
  have ne: "getHash m' j \<noteq> emptyBucket" if "getHash m j \<noteq> emptyBucket" for j
    using that others new by (cases "j = slot m h d") auto
  show "getHash m' (slot m' h' d') \<noteq> emptyBucket"
  proof (cases "slot m h' d0 = slot m h d")
    case True
    then have "h' = h" using hh new(1) by (simp add: sl)
    then have "d0 = d" using True d0 d(1) same(1) slot_inj [OF wf, of h d0 d] by simp
    then show ?thesis using d(2) d' ne \<open>h' = h\<close> by (simp add: sl)
  next
    case False
    then have "getHash m (slot m h' d0) = h'" "live m (slot m h' d0)"
      using hh lv others by (simp_all add: sl live_def)
    then have "getHash m (slot m h' d') \<noteq> emptyBucket"
      using ok d0 d' same(1) unfolding path_ok_def by auto
    then show ?thesis using ne by (simp add: sl)
  qed
qed

text \<open>An update that empties no bucket and makes no bucket live or changes a live hash.\<close>

lemma path_ok_keep:
  assumes ok: "path_ok m"
    and same: "sizeLog2 m' = sizeLog2 m" "sizeMask m' = sizeMask m"
    and ne: "\<forall>j. getHash m j \<noteq> emptyBucket \<longrightarrow> getHash m' j \<noteq> emptyBucket"
    and lv: "\<forall>j. live m' j \<longrightarrow> live m j \<and> getHash m' j = getHash m j"
  shows "path_ok m'"
  unfolding path_ok_def
proof (intro allI impI)
  fix h' d0 d'
  assume d0: "d0 < 2 ^ sizeLog2 m'" and l: "live m' (slot m' h' d0)"
    and hh: "getHash m' (slot m' h' d0) = h'" and d': "d' < d0"
  have sl: "\<And>a b. slot m' a b = slot m a b" using same(2) by (rule slot_cong)
  have "live m (slot m h' d0)" "getHash m (slot m h' d0) = h'"
    using l hh lv by (auto simp: sl)
  then have "getHash m (slot m h' d') \<noteq> emptyBucket"
    using ok d0 d' same(1) unfolding path_ok_def by auto
  then show "getHash m' (slot m' h' d') \<noteq> emptyBucket" using ne by (simp add: sl)
qed

lemma card_fill:
  assumes "sizeLog2 m' = sizeLog2 m" and "unat e < 2 ^ sizeLog2 m"
    and "getHash m e = emptyBucket" and "getHash m' e \<noteq> emptyBucket"
    and "\<forall>j. j \<noteq> e \<longrightarrow> getHash m' j = getHash m j"
  shows "card {i. unat i < 2 ^ sizeLog2 m' \<and> getHash m' i \<noteq> emptyBucket}
       = Suc (card {i. unat i < 2 ^ sizeLog2 m \<and> getHash m i \<noteq> emptyBucket})"
proof -
  let ?A = "{i. unat i < 2 ^ sizeLog2 m \<and> getHash m i \<noteq> emptyBucket}"
  have "{i. unat i < 2 ^ sizeLog2 m' \<and> getHash m' i \<noteq> emptyBucket} = insert e ?A"
    using assms by auto
  moreover have "finite ?A" by simp
  moreover have "e \<notin> ?A" using assms(3) by simp
  ultimately show ?thesis by simp
qed

lemma card_keep:
  assumes "sizeLog2 m' = sizeLog2 m"
    and "\<forall>j. getHash m' j = emptyBucket \<longleftrightarrow> getHash m j = emptyBucket"
  shows "card {i. unat i < 2 ^ sizeLog2 m' \<and> getHash m' i \<noteq> emptyBucket}
       = card {i. unat i < 2 ^ sizeLog2 m \<and> getHash m i \<noteq> emptyBucket}"
  using assms by simp

section \<open>Expansion of the hash map\<close>

lemma findEmpty_first:
  assumes wf: "sizeMask m = mask k" "k \<le> 32"
  shows "\<forall>d'<d. getHash m (slot m h (a + d')) \<noteq> emptyBucket \<Longrightarrow>
         getHash m (slot m h (a + d)) = emptyBucket \<Longrightarrow> d < n \<Longrightarrow>
         findEmpty m (slot m h a) n = slot m h (a + d)"
proof (induction d arbitrary: a n)
  case 0
  then obtain n' where "n = Suc n'" by (cases n) auto
  with 0 show ?case by simp
next
  case (Suc d)
  then obtain n' where n: "n = Suc n'" by (cases n) auto
  have ne: "getHash m (slot m h a) \<noteq> emptyBucket" using Suc.prems(1) [rule_format, of 0] by simp
  have "findEmpty m (slot m h (Suc a)) n' = slot m h (Suc a + d)"
  proof (rule Suc.IH)
    show "\<forall>d'<d. getHash m (slot m h (Suc a + d')) \<noteq> emptyBucket"
      using Suc.prems(1) by (metis Suc_less_eq add_Suc_shift)
    show "getHash m (slot m h (Suc a + d)) = emptyBucket" using Suc.prems(2) by simp
    show "d < n'" using Suc.prems(3) n by simp
  qed
  then show ?case using ne n by (simp add: slot_Suc [OF wf])
qed

lemma first_empty_slot:
  assumes wf: "sizeMask m = mask (sizeLog2 m)" "sizeLog2 m \<le> 32"
    and ex: "\<exists>i. unat i < 2 ^ sizeLog2 m \<and> getHash m i = emptyBucket"
  obtains d where "d < 2 ^ sizeLog2 m" and "getHash m (slot m h d) = emptyBucket"
    and "\<forall>d'<d. getHash m (slot m h d') \<noteq> emptyBucket"
proof -
  obtain i where i: "unat i < 2 ^ sizeLog2 m" "getHash m i = emptyBucket" using ex by blast
  obtain d0 where d0: "d0 < 2 ^ sizeLog2 m" "slot m h d0 = i"
    using slot_surj [OF wf i(1)] by blast
  let ?P = "\<lambda>d. getHash m (slot m h d) = emptyBucket"
  have "?P d0" using d0 i by simp
  then obtain d where d: "?P d" "\<forall>d'<d. \<not> ?P d'"
    using exists_least_iff [of ?P] by blast
  have "d < 2 ^ sizeLog2 m"
    using d(2) \<open>?P d0\<close> d0(1) by (metis not_less_iff_gr_or_eq order_less_trans)
  then show thesis using that d by blast
qed

lemma unat_of_nat_slot: "p < 2 ^ k \<Longrightarrow> k \<le> 32 \<Longrightarrow> unat (of_nat p :: u32) = p"
proof -
  assume "p < 2 ^ k" "k \<le> 32"
  then have "p < 2 ^ 32"
    by (meson le_less_trans less_le_trans less_imp_le power_increasing one_le_numeral)
  then show ?thesis by (simp add: unat_of_nat)
qed

lemma reinsert_eq:
  "reinsert m h x =
     (takeBucket m (findEmpty m (h AND sizeMask m) (2 ^ sizeLog2 m)) h x)
       \<lparr>numStoredKeys := numStoredKeys m + 1\<rparr>"
  by (simp add: reinsert_def takeBucket_def Let_def)

lemma newHashMap_simps [simp]:
  "getHash (newHashMap k l) i = emptyBucket"
  "sizeLog2 (newHashMap k l) = k"
  "sizeLimit (newHashMap k l) = l"
  "sizeMask (newHashMap k l) = mask k"
  "numStoredKeys (newHashMap k l) = 0"
  "numKeysToExpand (newHashMap k l) = (3 * 2 ^ k) div 4"
  by (simp_all add: newHashMap_def getHash_def mask_eq_exp_minus_1)

lemma expand_eq:
  "expand m =
     (if sizeLimit m < sizeLog2 m + 1 then Inl ErrTableTooLarge
      else Inr (fold (expand_step m) [0..<2 ^ sizeLog2 m] (newHashMap (sizeLog2 m + 1) (sizeLimit m))))"
proof -
  have "(\<lambda>i new. let h = getHash m (of_nat i)
                  in if h = emptyBucket \<or> h = deletedBucket then new
                     else reinsert new h (getStoreIndex m (of_nat i))) = expand_step m"
    by (simp add: expand_step_def fun_eq_iff)
  then show ?thesis by (simp add: expand_def)
qed

lemma expand_fold:
  assumes k: "sizeLog2 m + 1 \<le> 32" and inj: "idx_inj m"
  defines "E \<equiv> \<lambda>n. fold (expand_step m) [0..<n] (newHashMap (sizeLog2 m + 1) (sizeLimit m))"
  shows "n \<le> 2 ^ sizeLog2 m \<Longrightarrow>
     sizeLog2 (E n) = sizeLog2 m + 1 \<and> sizeLimit (E n) = sizeLimit m \<and>
     sizeMask (E n) = mask (sizeLog2 m + 1) \<and>
     numKeysToExpand (E n) = (3 * 2 ^ (sizeLog2 m + 1)) div 4 \<and>
     copies m (E n) n \<and>
     numStoredKeys (E n) = card {i. unat i < 2 ^ sizeLog2 (E n) \<and> getHash (E n) i \<noteq> emptyBucket} \<and>
     numStoredKeys (E n) \<le> card {p. p < n \<and> live m (of_nat p)} \<and>
     path_ok (E n) \<and> idx_inj (E n) \<and>
     (\<forall>i. getHash (E n) i \<noteq> deletedBucket)"
proof (induction n)
  case 0
  show ?case
    by (simp add: E_def copies_def path_ok_def idx_inj_def live_def emptyBucket_def deletedBucket_def)
next
  case (Suc n)
  let ?m1 = "E n" and ?K = "sizeLog2 m + 1"
  from Suc have n: "n < 2 ^ sizeLog2 m" by simp
  have "n \<le> 2 ^ sizeLog2 m" using Suc.prems by simp
  note IH' = Suc.IH [OF this]
  from IH' have IH: "sizeLog2 ?m1 = ?K" "sizeLimit ?m1 = sizeLimit m"
    "sizeMask ?m1 = mask ?K" "numKeysToExpand ?m1 = (3 * 2 ^ ?K) div 4"
    "copies m ?m1 n"
    "numStoredKeys ?m1 = card {i. unat i < 2 ^ sizeLog2 ?m1 \<and> getHash ?m1 i \<noteq> emptyBucket}"
    "numStoredKeys ?m1 \<le> card {p. p < n \<and> live m (of_nat p)}"
    "path_ok ?m1" "idx_inj ?m1" "\<forall>i. getHash ?m1 i \<noteq> deletedBucket"
    by blast+
  have step: "E (Suc n) = expand_step m n ?m1" by (simp add: E_def)
  have fin: "finite {p. p < n \<and> live m (of_nat p)}" by simp
  show ?case
  proof (cases "live m (of_nat n)")
    case False
    then have e: "E (Suc n) = ?m1" by (auto simp: step expand_step_def live_def)
    have "copies m ?m1 (Suc n)"
      using IH(5) False unfolding copies_def by (metis less_Suc_eq)
    moreover have "{p. p < Suc n \<and> live m (of_nat p)} = {p. p < n \<and> live m (of_nat p)}"
      using False by (auto simp: less_Suc_eq)
    ultimately show ?thesis using IH by (simp add: e)
  next
    case True
    let ?h = "getHash m (of_nat n)" and ?x = "getStoreIndex m (of_nat n)"
    have hl: "?h \<noteq> emptyBucket" "?h \<noteq> deletedBucket" using True by (simp_all add: live_def)
    have wf1: "sizeMask ?m1 = mask (sizeLog2 ?m1)" "sizeLog2 ?m1 \<le> 32"
      using IH k by simp_all
    \<comment> \<open>the new table still has an empty bucket\<close>
    have "card {p. p < n \<and> live m (of_nat p)} \<le> card {p. p < n}"
      by (rule card_mono) auto
    then have "numStoredKeys ?m1 \<le> n" using IH(7) by simp
    then have lt: "card {i. unat i < 2 ^ sizeLog2 ?m1 \<and> getHash ?m1 i \<noteq> emptyBucket} < 2 ^ sizeLog2 ?m1"
      using IH(1,6) n by simp
    have ex: "\<exists>i. unat i < 2 ^ sizeLog2 ?m1 \<and> getHash ?m1 i = emptyBucket"
    proof (rule ccontr)
      assume "\<not> ?thesis"
      then have "{i. unat i < 2 ^ sizeLog2 ?m1 \<and> getHash ?m1 i \<noteq> emptyBucket}
                 = {i :: u32. unat i < 2 ^ sizeLog2 ?m1}" by auto
      then show False using lt card_slots [OF wf1(2)] by simp
    qed
    obtain d where d: "d < 2 ^ sizeLog2 ?m1" "getHash ?m1 (slot ?m1 ?h d) = emptyBucket"
      "\<forall>d'<d. getHash ?m1 (slot ?m1 ?h d') \<noteq> emptyBucket"
      using first_empty_slot [OF wf1 ex] by blast
    let ?e = "slot ?m1 ?h d"
    have fe: "findEmpty ?m1 (?h AND sizeMask ?m1) (2 ^ sizeLog2 ?m1) = ?e"
      using findEmpty_first [OF wf1, of d ?h 0 "2 ^ sizeLog2 ?m1"] d by (simp add: slot_0)
    define m2 where "m2 = (takeBucket ?m1 ?e ?h ?x)\<lparr>numStoredKeys := numStoredKeys ?m1 + 1\<rparr>"
    have e2: "E (Suc n) = m2"
      using True by (simp add: step expand_step_def live_def reinsert_eq fe m2_def Let_def)
    have er: "unat ?e < 2 ^ sizeLog2 ?m1" by (rule slot_less [OF wf1])
    have gh: "\<And>j. getHash m2 j = (if j = ?e then ?h else getHash ?m1 j)"
      and gs: "\<And>j. getStoreIndex m2 j = (if j = ?e then ?x else getStoreIndex ?m1 j)"
      and sz: "sizeLog2 m2 = sizeLog2 ?m1" "sizeMask m2 = sizeMask ?m1"
        "sizeLimit m2 = sizeLimit ?m1" "numKeysToExpand m2 = numKeysToExpand ?m1"
        "numStoredKeys m2 = numStoredKeys ?m1 + 1"
      by (simp_all add: m2_def)
    have c2: "copies m m2 (Suc n)"
      unfolding copies_def
    proof (intro conjI allI impI)
      fix i' assume i': "unat i' < 2 ^ sizeLog2 m2" "getHash m2 i' \<noteq> emptyBucket"
      show "\<exists>p<Suc n. live m (of_nat p) \<and> getHash m2 i' = getHash m (of_nat p) \<and>
              getStoreIndex m2 i' = getStoreIndex m (of_nat p)"
      proof (cases "i' = ?e")
        case True
        then show ?thesis using \<open>live m (of_nat n)\<close> by (auto simp: gh gs)
      next
        case False
        then obtain p where "p < n" "live m (of_nat p)" "getHash ?m1 i' = getHash m (of_nat p)"
          "getStoreIndex ?m1 i' = getStoreIndex m (of_nat p)"
          using IH(5) i' unfolding copies_def by (auto simp: gh sz)
        then show ?thesis using False by (auto simp: gh gs less_Suc_eq)
      qed
    next
      fix p assume p: "p < Suc n" "live m (of_nat p)"
      show "\<exists>i'. unat i' < 2 ^ sizeLog2 m2 \<and> getHash m2 i' = getHash m (of_nat p) \<and>
              getStoreIndex m2 i' = getStoreIndex m (of_nat p)"
      proof (cases "p = n")
        case True
        then show ?thesis using er by (intro exI [of _ ?e]) (simp add: gh gs sz)
      next
        case False
        then obtain i' where i': "unat i' < 2 ^ sizeLog2 ?m1" "getHash ?m1 i' = getHash m (of_nat p)"
          "getStoreIndex ?m1 i' = getStoreIndex m (of_nat p)"
          using IH(5) p unfolding copies_def by (auto simp: less_Suc_eq)
        then have "i' \<noteq> ?e" using d(2) p(2) by (auto simp: live_def)
        then show ?thesis using i' by (intro exI [of _ i']) (simp add: gh gs sz)
      qed
    qed
    have cf: "card {i. unat i < 2 ^ sizeLog2 m2 \<and> getHash m2 i \<noteq> emptyBucket}
       = Suc (card {i. unat i < 2 ^ sizeLog2 ?m1 \<and> getHash ?m1 i \<noteq> emptyBucket})"
      by (rule card_fill) (use er d(2) hl in \<open>simp_all add: gh sz\<close>)
    have "{p. p < Suc n \<and> live m (of_nat p)} = insert n {p. p < n \<and> live m (of_nat p)}"
      using True by (auto simp: less_Suc_eq)
    then have cs: "card {p. p < Suc n \<and> live m (of_nat p)} = Suc (card {p. p < n \<and> live m (of_nat p)})"
      using fin by simp
    have p2: "path_ok m2"
      by (rule path_ok_fill [OF IH(8) wf1 sz(1,2) _ _ hl(1) d(1) d(3) d(2)]) (simp_all add: gh)
    have i2: "idx_inj m2"
      unfolding idx_inj_def
    proof (intro allI impI)
      fix i j
      assume a: "unat i < 2 ^ sizeLog2 m2" "unat j < 2 ^ sizeLog2 m2" "live m2 i" "live m2 j"
        "getStoreIndex m2 i = getStoreIndex m2 j"
      have clash: False if c1: "j' \<noteq> ?e" and c2: "unat j' < 2 ^ sizeLog2 ?m1"
        and c3: "live ?m1 j'" and c4: "getStoreIndex ?m1 j' = ?x" for j'
      proof -
        obtain p where p: "p < n" "live m (of_nat p)" "getStoreIndex ?m1 j' = getStoreIndex m (of_nat p)"
          using IH(5) c2 c3 unfolding copies_def by (auto simp: live_def)
        have kk: "sizeLog2 m \<le> 32" using k by simp
        have pn: "p < 2 ^ sizeLog2 m" using p(1) n by simp
        have up: "unat (of_nat p :: u32) = p" using pn kk by (rule unat_of_nat_slot)
        have un: "unat (of_nat n :: u32) = n" using n kk by (rule unat_of_nat_slot)
        have "getStoreIndex m (of_nat p) = getStoreIndex m (of_nat n)"
          using c4 p(3) by simp
        then have "(of_nat p :: u32) = of_nat n"
          using inj p(2) True pn n up un unfolding idx_inj_def by metis
        then have "p = n" using up un by metis
        then show False using p(1) by simp
      qed
      show "i = j"
      proof (cases "i = ?e"; cases "j = ?e")
        assume "i \<noteq> ?e" "j \<noteq> ?e"
        then show ?thesis using a IH(9) unfolding idx_inj_def by (auto simp: gh gs sz live_def)
      next
        assume "i = ?e" "j \<noteq> ?e"
        then show ?thesis using a clash [of j] by (auto simp: gh gs sz live_def)
      next
        assume "i \<noteq> ?e" "j = ?e"
        then show ?thesis using a clash [of i] by (auto simp: gh gs sz live_def)
      qed simp
    qed
    have nd: "\<forall>i. getHash m2 i \<noteq> deletedBucket" using IH(10) hl by (simp add: gh)
    show ?thesis
      unfolding e2 using IH(1-4,6,7) c2 cf cs p2 i2 nd by (simp add: sz)
  qed
qed

lemma copies_live_card:
  assumes k: "k \<le> 32"
  shows "card {p. p < 2 ^ k \<and> live m (of_nat p)}
       \<le> card {i :: u32. unat i < 2 ^ k \<and> getHash m i \<noteq> emptyBucket}"
proof -
  let ?A = "{p. p < 2 ^ k \<and> live m (of_nat p)}"
  let ?B = "{i :: u32. unat i < 2 ^ k \<and> getHash m i \<noteq> emptyBucket}"
  have inj: "inj_on (of_nat :: nat \<Rightarrow> u32) ?A"
  proof (rule inj_onI)
    fix p q assume a: "p \<in> ?A" "q \<in> ?A" and e: "(of_nat p :: u32) = of_nat q"
    have "p < 2 ^ k" "q < 2 ^ k" using a by simp_all
    then have "unat (of_nat p :: u32) = p" "unat (of_nat q :: u32) = q"
      using k by (simp_all add: unat_of_nat_slot)
    then show "p = q" using e by metis
  qed
  have "of_nat ` ?A \<subseteq> ?B"
    using k by (auto simp: live_def unat_of_nat_slot)
  then have "card (of_nat ` ?A :: u32 set) \<le> card ?B"
    by (intro card_mono) simp_all
  then show ?thesis using inj by (simp add: card_image)
qed

lemma three_quarters_double: "(3 * 2 ^ k) div 4 < (3 * 2 ^ (k + 1)) div (4::nat)"
proof -
  have "0 < (2::nat) ^ k" by simp
  then show ?thesis by (cases "(2::nat) ^ k") (simp_all, arith)
qed

lemma expand_inv:
  assumes inv: "hm_inv m s rs" and ex: "expand m = Inr m'"
  shows "hm_inv m' s rs" and "numStoredKeys m' < numKeysToExpand m'"
    and "copies m m' (2 ^ sizeLog2 m)" and "\<forall>i. getHash m' i \<noteq> deletedBucket"
    and "sizeLimit m' = sizeLimit m" and "sizeLog2 m' = sizeLog2 m + 1"
proof -
  let ?k = "sizeLog2 m"
  from inv have wf: "hm_wf m" and pt: "points m rs" and inj: "idx_inj m"
    and kd: "keys_distinct m s"
    by (simp_all add: hm_inv_def)
  from ex have lim: "?k + 1 \<le> sizeLimit m"
    and m': "m' = fold (expand_step m) [0..<2 ^ ?k] (newHashMap (?k + 1) (sizeLimit m))"
    by (auto simp: expand_eq split: if_splits)
  from wf have l32: "sizeLimit m \<le> 32" and k32: "?k \<le> 32"
    and ns: "card {i. unat i < 2 ^ ?k \<and> getHash m i \<noteq> emptyBucket} \<le> numStoredKeys m"
       "numStoredKeys m \<le> (3 * 2 ^ ?k) div 4"
    by (simp_all add: hm_wf_def)
  have k1: "?k + 1 \<le> 32" using lim l32 by simp
  note F = expand_fold [OF k1 inj, of "2 ^ ?k", folded m']
  from F have sh: "sizeLog2 m' = ?k + 1" "sizeLimit m' = sizeLimit m"
    "sizeMask m' = mask (?k + 1)" "numKeysToExpand m' = (3 * 2 ^ (?k + 1)) div 4"
    and cp: "copies m m' (2 ^ ?k)"
    and cnt: "numStoredKeys m' = card {i. unat i < 2 ^ sizeLog2 m' \<and> getHash m' i \<noteq> emptyBucket}"
      "numStoredKeys m' \<le> card {p. p < 2 ^ ?k \<and> live m (of_nat p)}"
    and po: "path_ok m'" and ij: "idx_inj m'" and nd: "\<forall>i. getHash m' i \<noteq> deletedBucket"
    by blast+
  show "copies m m' (2 ^ ?k)" by fact
  show "\<forall>i. getHash m' i \<noteq> deletedBucket" by fact
  show "sizeLimit m' = sizeLimit m" by fact
  show "sizeLog2 m' = ?k + 1" by fact
  have "numStoredKeys m' \<le> (3 * 2 ^ ?k) div 4"
    using cnt(2) copies_live_card [OF k32, of m] ns by linarith
  then show lt: "numStoredKeys m' < numKeysToExpand m'"
    using three_quarters_double [of ?k] sh(4) by linarith
  have wf': "hm_wf m'"
    using sh k1 l32 cnt(1) lt by (simp add: hm_wf_def)
  have copy: "\<exists>i. unat i < 2 ^ ?k \<and> live m i \<and> getHash m' i' = getHash m i \<and>
                 getStoreIndex m' i' = getStoreIndex m i"
    if r1: "unat i' < 2 ^ sizeLog2 m'" and r2: "getHash m' i' \<noteq> emptyBucket" for i'
  proof -
    obtain p where p: "p < 2 ^ ?k" "live m (of_nat p)" "getHash m' i' = getHash m (of_nat p)"
      "getStoreIndex m' i' = getStoreIndex m (of_nat p)"
      using cp r1 r2 unfolding copies_def by blast
    have "unat (of_nat p :: u32) = p" using p(1) k32 by (rule unat_of_nat_slot)
    then show ?thesis using p by (intro exI [of _ "of_nat p"]) simp
  qed
  have pt': "points m' rs"
    unfolding points_def
  proof (intro allI impI)
    fix i' assume i': "unat i' < 2 ^ sizeLog2 m'" "getHash m' i' \<noteq> emptyBucket"
    then obtain i where i: "unat i < 2 ^ ?k" "live m i" "getStoreIndex m' i' = getStoreIndex m i"
      using copy by blast
    then show "\<exists>j<length rs. unat (getStoreIndex m' i') = offs rs j \<and> 8 \<le> length (snd (rs ! j))"
      using pt unfolding points_def by (auto simp: live_def)
  qed
  have kd': "keys_distinct m' s"
    unfolding keys_distinct_def
  proof (intro allI impI)
    fix i' j'
    assume a: "unat i' < 2 ^ sizeLog2 m'" "unat j' < 2 ^ sizeLog2 m'" "live m' i'" "live m' j'"
      "getHash m' i' = getHash m' j'"
      "key_st s (unat (getStoreIndex m' i')) = key_st s (unat (getStoreIndex m' j'))"
    obtain i where i: "unat i < 2 ^ ?k" "live m i" "getHash m' i' = getHash m i"
      "getStoreIndex m' i' = getStoreIndex m i"
      using copy [OF a(1)] a(3) by (auto simp: live_def)
    obtain j where j: "unat j < 2 ^ ?k" "live m j" "getHash m' j' = getHash m j"
      "getStoreIndex m' j' = getStoreIndex m j"
      using copy [OF a(2)] a(4) by (auto simp: live_def)
    have "i = j" using kd i j a(5,6) unfolding keys_distinct_def by metis
    then have "getStoreIndex m' i' = getStoreIndex m' j'" using i(4) j(4) by simp
    then show "i' = j'" using ij a(1-4) unfolding idx_inj_def by blast
  qed
  show "hm_inv m' s rs" using wf' pt' po ij kd' by (simp add: hm_inv_def)
qed

lemma expand_holds:
  assumes inv: "hm_inv m s rs" and ex: "expand m = Inr m'"
  shows "holds m' s h key x \<longleftrightarrow> holds m s h key x"
proof -
  let ?k = "sizeLog2 m"
  have k32: "?k \<le> 32" using inv by (simp add: hm_inv_def hm_wf_def)
  note cp = expand_inv(3) [OF inv ex]
  show ?thesis
  proof
    assume "holds m' s h key x"
    then obtain i' where i': "unat i' < 2 ^ sizeLog2 m'" "live m' i'" "matches m' s h key i'"
      "getStoreIndex m' i' = x"
      by (auto simp: holds_def)
    then obtain p where p: "p < 2 ^ ?k" "live m (of_nat p)" "getHash m' i' = getHash m (of_nat p)"
      "getStoreIndex m' i' = getStoreIndex m (of_nat p)"
      using cp unfolding copies_def by (auto simp: live_def)
    have "unat (of_nat p :: u32) = p" using p(1) k32 by (rule unat_of_nat_slot)
    then show "holds m s h key x"
      using p i' unfolding holds_def by (intro exI [of _ "of_nat p"]) (auto simp: matches_def)
  next
    assume "holds m s h key x"
    then obtain i where i: "unat i < 2 ^ ?k" "live m i" "matches m s h key i" "getStoreIndex m i = x"
      by (auto simp: holds_def)
    have "of_nat (unat i) = i" by simp
    then obtain i' where i': "unat i' < 2 ^ sizeLog2 m'" "getHash m' i' = getHash m i"
      "getStoreIndex m' i' = getStoreIndex m i"
      using cp i(1,2) unfolding copies_def by metis
    then show "holds m' s h key x"
      using i unfolding holds_def by (intro exI [of _ i']) (auto simp: matches_def live_def)
  qed
qed

section \<open>Get and the live buckets\<close>

lemma pmap_invD:
  assumes "pmap_inv c rs"
  shows "store_inv (st c) rs" and "hm_inv (hm c) (st c) rs" and "hm_wf (hm c)"
  using assms by (simp_all add: pmap_inv_def hm_inv_def)

lemma holds_record:
  assumes hm: "hm_inv m s rs" and st: "store_inv s rs" and h: "holds m s h key x"
  obtains j where "j < length rs" and "unat x = offs rs j" and "fst (rs ! j) = key"
    and "8 \<le> length (snd (rs ! j))"
proof -
  obtain i where i: "unat i < 2 ^ sizeLog2 m" "live m i" "matches m s h key i" "getStoreIndex m i = x"
    using h by (auto simp: holds_def)
  obtain j where j: "j < length rs" "unat (getStoreIndex m i) = offs rs j" "8 \<le> length (snd (rs ! j))"
    using bucket_record [OF hm i(1)] i(2) by (auto simp: live_def)
  have "key_st s (offs rs j) = Some (fst (rs ! j))" using store_inv_read(4) [OF st j(1)] .
  then have "fst (rs ! j) = key" using i(3) j(2) by (simp add: matches_def)
  then show thesis using that j i(4) by simp
qed

lemma view_of_record:
  assumes "store_inv s rs" and "j < length rs"
  obtains v where "val_st s (offs rs j) = Some v" and "view_bytes v = snd (rs ! j)"
    and "len v = length (snd (rs ! j))"
    and "8 \<le> length (snd (rs ! j)) \<Longrightarrow> view_to v 8 = Some (take 8 (snd (rs ! j)))"
    and "8 \<le> length (snd (rs ! j)) \<Longrightarrow> view_from v 8 = Some (drop 8 (snd (rs ! j)))"
  using store_inv_read(5) [OF assms]
  by (auto simp: view_bytes_def view_to_def view_from_def)

lemma probe_holds:
  assumes hm: "hm_inv m s rs" and st: "store_inv s rs" and h: "holds m s h key x"
  obtains i where "unat i < 2 ^ sizeLog2 m" and "live m i" and "getHash m i = h"
    and "getStoreIndex m i = x"
    and "probe m s h key (h AND sizeMask m) = ret (MatchAt i x)"
proof -
  obtain i where i: "unat i < 2 ^ sizeLog2 m" "live m i" "matches m s h key i" "getStoreIndex m i = x"
    using h by (auto simp: holds_def)
  have "probe m s h key (h AND sizeMask m) = ret (MatchAt i (getStoreIndex m i))"
    using hm st i(1-3) by (rule probe_found)
  then show thesis using that i by (simp add: matches_def)
qed

lemma probe_not_holds:
  assumes hm: "hm_inv m s rs" and st: "store_inv s rs"
    and h: "h \<noteq> deletedBucket" and no: "\<forall>x. \<not> holds m s h key x"
  obtains d where "d < 2 ^ sizeLog2 m"
    and "probe m s h key (h AND sizeMask m) = ret (EmptyAt (slot m h d))"
    and "getHash m (slot m h d) = emptyBucket"
    and "\<forall>d'<d. getHash m (slot m h d') \<noteq> emptyBucket"
proof -
  have "\<forall>i. unat i < 2 ^ sizeLog2 m \<longrightarrow> getHash m i \<noteq> emptyBucket \<longrightarrow> \<not> matches m s h key i"
  proof (intro allI impI notI)
    fix i assume i: "unat i < 2 ^ sizeLog2 m" "getHash m i \<noteq> emptyBucket" "matches m s h key i"
    then have "live m i" using h by (auto simp: live_def matches_def)
    then show False using no i unfolding holds_def by blast
  qed
  then show thesis using probe_absent [OF hm st] that by blast
qed

lemma Get_holds:
  assumes inv: "pmap_inv c rs" and h: "holds (hm c) (st c) h key x"
    and j: "j < length rs" "unat x = offs rs j"
  shows "Get c h key = ret (Some (snd (rs ! j)))"
proof -
  note st = pmap_invD(1) [OF inv] and hm = pmap_invD(2) [OF inv]
  obtain i where "probe (hm c) (st c) h key (h AND sizeMask (hm c)) = ret (MatchAt i x)"
    using probe_holds [OF hm st h] by blast
  moreover obtain v where "val_st (st c) (offs rs j) = Some v" "view_bytes v = snd (rs ! j)"
    using view_of_record [OF st j(1)] by blast
  ultimately show ?thesis using j(2) by (simp add: Get_def)
qed

lemma Get_not_holds:
  assumes inv: "pmap_inv c rs" and h: "h \<noteq> deletedBucket"
    and no: "\<forall>x. \<not> holds (hm c) (st c) h key x"
  shows "Get c h key = ret None"
proof -
  note st = pmap_invD(1) [OF inv] and hm = pmap_invD(2) [OF inv]
  obtain d where "probe (hm c) (st c) h key (h AND sizeMask (hm c)) = ret (EmptyAt (slot (hm c) h d))"
    using probe_not_holds [OF hm st h no] by blast
  then show ?thesis by (simp add: Get_def)
qed

lemma Get_Some_holds:
  assumes inv: "pmap_inv c rs" and h: "h \<noteq> deletedBucket" and g: "Get c h key = ret (Some old)"
  obtains x j where "holds (hm c) (st c) h key x" and "j < length rs" and "unat x = offs rs j"
    and "fst (rs ! j) = key" and "snd (rs ! j) = old" and "8 \<le> length old"
proof (cases "\<exists>x. holds (hm c) (st c) h key x")
  case False
  then show ?thesis using Get_not_holds [OF inv h] g by (simp add: ret_def)
next
  case True
  then obtain x where x: "holds (hm c) (st c) h key x" by blast
  obtain j where j: "j < length rs" "unat x = offs rs j" "fst (rs ! j) = key" "8 \<le> length (snd (rs ! j))"
    using holds_record [OF pmap_invD(2,1) [OF inv] x] by blast
  have "Get c h key = ret (Some (snd (rs ! j)))" using inv x j(1,2) by (rule Get_holds)
  then have "snd (rs ! j) = old" using g by (simp add: ret_def)
  then show ?thesis using that x j by simp
qed

lemma Get_None_not_holds:
  assumes inv: "pmap_inv c rs" and g: "Get c h key = ret None"
  shows "\<not> holds (hm c) (st c) h key x"
proof
  assume x: "holds (hm c) (st c) h key x"
  obtain j where j: "j < length rs" "unat x = offs rs j"
    using holds_record [OF pmap_invD(2,1) [OF inv] x] by blast
  show False using Get_holds [OF inv x j] g by (simp add: ret_def)
qed

text \<open>Get is decided by the live buckets: two maps over logs of which one extends the
  other answer alike wherever they hold the same records.\<close>

lemma Get_cong:
  assumes inv: "pmap_inv c rs" and inv': "pmap_inv c' (rs @ ex)" and h: "h \<noteq> deletedBucket"
    and same: "\<forall>x. holds (hm c') (st c') h key x \<longleftrightarrow> holds (hm c) (st c) h key x"
  shows "Get c' h key = Get c h key"
proof (cases "\<exists>x. holds (hm c) (st c) h key x")
  case False
  then show ?thesis using Get_not_holds [OF inv h] Get_not_holds [OF inv' h] same by simp
next
  case True
  then obtain x where x: "holds (hm c) (st c) h key x" by blast
  obtain j where j: "j < length rs" "unat x = offs rs j"
    using holds_record [OF pmap_invD(2,1) [OF inv] x] by blast
  have x': "holds (hm c') (st c') h key x" using same x by simp
  have j': "j < length (rs @ ex)" "unat x = offs (rs @ ex) j" using j by simp_all
  show ?thesis
    using Get_holds [OF inv x j] Get_holds [OF inv' x' j'] j(1) by (simp add: nth_append)
qed

lemma checkSpace_Inr:
  assumes inv: "hm_inv m s rs" and cs: "checkSpace m = Inr m1"
  shows "hm_inv m1 s rs" and "numStoredKeys m1 < numKeysToExpand m1"
    and "holds m1 s h key x \<longleftrightarrow> holds m s h key x"
proof -
  show "hm_inv m1 s rs"
    using inv cs expand_inv(1) [OF inv] by (auto simp: checkSpace_def split: if_splits)
  show "numStoredKeys m1 < numKeysToExpand m1"
    using inv cs expand_inv(2) [OF inv] by (auto simp: checkSpace_def split: if_splits)
  show "holds m1 s h key x \<longleftrightarrow> holds m s h key x"
    using inv cs expand_holds [OF inv] by (auto simp: checkSpace_def split: if_splits)
qed

lemma checkSpace_Inl:
  "checkSpace m = Inl e \<longleftrightarrow>
     e = ErrTableTooLarge \<and> numKeysToExpand m \<le> numStoredKeys m \<and> sizeLimit m < sizeLog2 m + 1"
  by (auto simp: checkSpace_def expand_eq)

section \<open>What the mutations do to the hash map\<close>

lemma key_st_extend:
  assumes "store_inv s rs" and "store_inv s' (rs @ ex)" and "j < length rs"
  shows "key_st s' (offs rs j) = key_st s (offs rs j)"
  using store_inv_read(4) [OF assms(1,3)] store_inv_read(4) [OF assms(2), of j] assms(3)
  by (simp add: nth_append)

lemma hm_inv_extend:
  assumes hm: "hm_inv m s rs" and st: "store_inv s rs" and st': "store_inv s' (rs @ ex)"
  shows "hm_inv m s' (rs @ ex)" and "holds m s' h key x \<longleftrightarrow> holds m s h key x"
proof -
  have key: "key_st s' (unat (getStoreIndex m i)) = key_st s (unat (getStoreIndex m i))"
    if r1: "unat i < 2 ^ sizeLog2 m" and r2: "getHash m i \<noteq> emptyBucket" for i
  proof -
    obtain j where "j < length rs" "unat (getStoreIndex m i) = offs rs j"
      using bucket_record [OF hm r1 r2] by blast
    then show ?thesis using key_st_extend [OF st st'] by simp
  qed
  have "points m (rs @ ex)"
    unfolding points_def
  proof (intro allI impI)
    fix i assume i: "unat i < 2 ^ sizeLog2 m" "getHash m i \<noteq> emptyBucket"
    obtain j where "j < length rs" "unat (getStoreIndex m i) = offs rs j" "8 \<le> length (snd (rs ! j))"
      using bucket_record [OF hm i] by blast
    then show "\<exists>j<length (rs @ ex). unat (getStoreIndex m i) = offs (rs @ ex) j \<and>
                 8 \<le> length (snd ((rs @ ex) ! j))"
      by (intro exI [of _ j]) (simp add: nth_append)
  qed
  moreover have "keys_distinct m s'"
    using hm key unfolding hm_inv_def keys_distinct_def live_def by metis
  ultimately show "hm_inv m s' (rs @ ex)" using hm by (simp add: hm_inv_def)
  show "holds m s' h key x \<longleftrightarrow> holds m s h key x"
    using key unfolding holds_def matches_def live_def by metis
qed

lemma holds_unique:
  assumes hm: "hm_inv m s rs" and "holds m s h key x" and "holds m s h key y"
  shows "x = y"
proof -
  obtain i where i: "unat i < 2 ^ sizeLog2 m" "live m i" "matches m s h key i" "getStoreIndex m i = x"
    using assms(2) by (auto simp: holds_def)
  obtain j where j: "unat j < 2 ^ sizeLog2 m" "live m j" "matches m s h key j" "getStoreIndex m j = y"
    using assms(3) by (auto simp: holds_def)
  have "i = j"
    using hm i(1-3) j(1-3) unfolding hm_inv_def keys_distinct_def matches_def by metis
  then show ?thesis using i(4) j(4) by simp
qed

lemma hm_inv_insert:
  assumes hm: "hm_inv m s rs" and st: "store_inv s rs"
    and below: "numStoredKeys m < numKeysToExpand m"
    and d: "d < 2 ^ sizeLog2 m" "getHash m (slot m h d) = emptyBucket"
      "\<forall>d'<d. getHash m (slot m h d') \<noteq> emptyBucket"
    and h: "h \<noteq> emptyBucket" "h \<noteq> deletedBucket"
    and j: "j < length rs" "unat x = offs rs j" "fst (rs ! j) = key" "8 \<le> length (snd (rs ! j))"
    and fresh: "\<forall>i. unat i < 2 ^ sizeLog2 m \<longrightarrow> getHash m i \<noteq> emptyBucket \<longrightarrow> getStoreIndex m i \<noteq> x"
    and absent: "\<forall>y. \<not> holds m s h key y"
  defines "m2 \<equiv> (takeBucket m (slot m h d) h x)\<lparr>numStoredKeys := numStoredKeys m + 1\<rparr>"
  shows "hm_inv m2 s rs"
    and "holds m2 s h' k' x' \<longleftrightarrow> holds m s h' k' x' \<or> (h' = h \<and> k' = key \<and> x' = x)"
proof -
  let ?e = "slot m h d"
  from hm have wf: "hm_wf m" and pt: "points m rs" and po: "path_ok m" and ij: "idx_inj m"
    and kd: "keys_distinct m s"
    by (simp_all add: hm_inv_def)
  note w = hm_wf_mask [OF wf] hm_wf_log2 [OF wf]
  have er: "unat ?e < 2 ^ sizeLog2 m" by (rule slot_less [OF w])
  have gh: "\<And>i. getHash m2 i = (if i = ?e then h else getHash m i)"
    and gs: "\<And>i. getStoreIndex m2 i = (if i = ?e then x else getStoreIndex m i)"
    and sz: "sizeLog2 m2 = sizeLog2 m" "sizeMask m2 = sizeMask m" "sizeLimit m2 = sizeLimit m"
      "numKeysToExpand m2 = numKeysToExpand m" "numStoredKeys m2 = numStoredKeys m + 1"
    by (simp_all add: m2_def)
  have kx: "key_st s (unat x) = Some key" using store_inv_read(4) [OF st j(1)] j(2,3) by simp
  have cf: "card {i. unat i < 2 ^ sizeLog2 m2 \<and> getHash m2 i \<noteq> emptyBucket}
       = Suc (card {i. unat i < 2 ^ sizeLog2 m \<and> getHash m i \<noteq> emptyBucket})"
    by (rule card_fill) (use er d(2) h in \<open>simp_all add: gh sz\<close>)
  have wf2: "hm_wf m2" using wf below cf by (simp add: hm_wf_def sz)
  have pt2: "points m2 rs"
    using pt j unfolding points_def by (auto simp: gh gs sz)
  have po2: "path_ok m2"
    by (rule path_ok_fill [OF po w sz(1,2) _ _ h(1) d(1) d(3) d(2)]) (simp_all add: gh)
  have lv: "\<And>i. live m2 i \<longleftrightarrow> i = ?e \<or> live m i"
    using h d(2) by (auto simp: live_def gh)
  have ij2: "idx_inj m2"
    using ij fresh er h unfolding idx_inj_def by (auto simp: gh gs sz live_def)
  have kd2: "keys_distinct m2 s"
    unfolding keys_distinct_def
  proof (intro allI impI)
    fix a b
    assume a: "unat a < 2 ^ sizeLog2 m2" "unat b < 2 ^ sizeLog2 m2" "live m2 a" "live m2 b"
      "getHash m2 a = getHash m2 b"
      "key_st s (unat (getStoreIndex m2 a)) = key_st s (unat (getStoreIndex m2 b))"
    have no: False if n1: "c \<noteq> ?e" and n2: "unat c < 2 ^ sizeLog2 m" and n3: "live m c"
      and n4: "getHash m c = h" and n5: "key_st s (unat (getStoreIndex m c)) = Some key" for c
      using absent n2 n3 n4 n5 unfolding holds_def matches_def by blast
    have other: False
      if o1: "p \<noteq> ?e" and o2: "unat p < 2 ^ sizeLog2 m2" and o3: "live m2 p"
        and o4: "getHash m2 p = h" and o5: "key_st s (unat (getStoreIndex m2 p)) = Some key" for p
    proof -
      have "live m p" using o3 o1 lv by simp
      moreover have "getHash m p = h" using o4 o1 by (simp add: gh)
      moreover have "key_st s (unat (getStoreIndex m p)) = Some key" using o5 o1 by (simp add: gs)
      moreover have "unat p < 2 ^ sizeLog2 m" using o2 by (simp add: sz)
      ultimately show False using no [OF o1] by blast
    qed
    have he: "getHash m2 ?e = h" "key_st s (unat (getStoreIndex m2 ?e)) = Some key"
      using kx by (simp_all add: gh gs)
    show "a = b"
    proof (cases "a = ?e")
      case ae: True
      show ?thesis
      proof (cases "b = ?e")
        case True
        then show ?thesis using ae by simp
      next
        case False
        have "getHash m2 b = h" "key_st s (unat (getStoreIndex m2 b)) = Some key"
          using a(5,6) he ae by simp_all
        then show ?thesis using other [OF False a(2,4)] by blast
      qed
    next
      case an: False
      show ?thesis
      proof (cases "b = ?e")
        case True
        have "getHash m2 a = h" "key_st s (unat (getStoreIndex m2 a)) = Some key"
          using a(5,6) he True by simp_all
        then show ?thesis using other [OF an a(1,3)] by blast
      next
        case False
        have "live m a" "live m b" using a(3,4) an False lv by simp_all
        moreover have "getHash m a = getHash m b" using a(5) an False by (simp add: gh)
        moreover have "key_st s (unat (getStoreIndex m a)) = key_st s (unat (getStoreIndex m b))"
          using a(6) an False by (simp add: gs)
        moreover have "unat a < 2 ^ sizeLog2 m" "unat b < 2 ^ sizeLog2 m"
          using a(1,2) by (simp_all add: sz)
        ultimately show ?thesis using kd unfolding keys_distinct_def by blast
      qed
    qed
  qed
  show "hm_inv m2 s rs" using wf2 pt2 po2 ij2 kd2 by (simp add: hm_inv_def)
  show "holds m2 s h' k' x' \<longleftrightarrow> holds m s h' k' x' \<or> (h' = h \<and> k' = key \<and> x' = x)"
  proof
    assume "holds m2 s h' k' x'"
    then obtain i where i: "unat i < 2 ^ sizeLog2 m" "live m2 i" "matches m2 s h' k' i"
      "getStoreIndex m2 i = x'"
      by (auto simp: holds_def sz)
    show "holds m s h' k' x' \<or> (h' = h \<and> k' = key \<and> x' = x)"
    proof (cases "i = ?e")
      case True
      then show ?thesis using i kx by (auto simp: matches_def gh gs)
    next
      case False
      then have "holds m s h' k' x'"
        using i unfolding holds_def by (intro exI [of _ i]) (auto simp: lv matches_def gh gs)
      then show ?thesis ..
    qed
  next
    assume "holds m s h' k' x' \<or> (h' = h \<and> k' = key \<and> x' = x)"
    then show "holds m2 s h' k' x'"
    proof
      assume "holds m s h' k' x'"
      then obtain i where i: "unat i < 2 ^ sizeLog2 m" "live m i" "matches m s h' k' i"
        "getStoreIndex m i = x'"
        by (auto simp: holds_def)
      then have "i \<noteq> ?e" using d(2) by (auto simp: live_def)
      then show ?thesis
        using i unfolding holds_def by (intro exI [of _ i]) (auto simp: lv matches_def gh gs sz)
    next
      assume "h' = h \<and> k' = key \<and> x' = x"
      then show ?thesis
        using er kx unfolding holds_def by (intro exI [of _ ?e]) (auto simp: lv matches_def gh gs sz)
    qed
  qed
qed

lemma hm_inv_overwrite:
  assumes hm: "hm_inv m s rs" and st: "store_inv s rs"
    and i: "unat i < 2 ^ sizeLog2 m" "live m i" "matches m s h key i"
    and j: "j < length rs" "unat x = offs rs j" "fst (rs ! j) = key" "8 \<le> length (snd (rs ! j))"
    and fresh: "\<forall>i. unat i < 2 ^ sizeLog2 m \<longrightarrow> getHash m i \<noteq> emptyBucket \<longrightarrow> getStoreIndex m i \<noteq> x"
  defines "m2 \<equiv> takeBucket m i h x"
  shows "hm_inv m2 s rs"
    and "holds m2 s h' k' x' \<longleftrightarrow>
           (holds m s h' k' x' \<and> \<not> (h' = h \<and> k' = key)) \<or> (h' = h \<and> k' = key \<and> x' = x)"
proof -
  from hm have wf: "hm_wf m" and pt: "points m rs" and po: "path_ok m" and ij: "idx_inj m"
    and kd: "keys_distinct m s"
    by (simp_all add: hm_inv_def)
  have hi: "getHash m i = h" and ki: "key_st s (unat (getStoreIndex m i)) = Some key"
    using i(3) by (simp_all add: matches_def)
  have kx: "key_st s (unat x) = Some key" using store_inv_read(4) [OF st j(1)] j(2,3) by simp
  have gh: "\<And>a. getHash m2 a = getHash m a"
    and gs: "\<And>a. getStoreIndex m2 a = (if a = i then x else getStoreIndex m a)"
    and sz: "sizeLog2 m2 = sizeLog2 m" "sizeMask m2 = sizeMask m" "sizeLimit m2 = sizeLimit m"
      "numKeysToExpand m2 = numKeysToExpand m" "numStoredKeys m2 = numStoredKeys m"
    using hi by (simp_all add: m2_def)
  have lv: "\<And>a. live m2 a \<longleftrightarrow> live m a" by (simp add: live_def gh)
  have ks: "\<And>a. key_st s (unat (getStoreIndex m2 a)) = key_st s (unat (getStoreIndex m a))"
    using ki kx by (simp add: gs)
  have wf2: "hm_wf m2" using wf by (simp add: hm_wf_def sz gh)
  have pt2: "points m2 rs" using pt j unfolding points_def by (auto simp: gh gs sz)
  have po2: "path_ok m2" by (rule path_ok_keep [OF po sz(1,2)]) (simp_all add: gh lv)
  have ij2: "idx_inj m2"
    unfolding idx_inj_def
  proof (intro allI impI)
    fix a b
    assume a: "unat a < 2 ^ sizeLog2 m2" "unat b < 2 ^ sizeLog2 m2" "live m2 a" "live m2 b"
      "getStoreIndex m2 a = getStoreIndex m2 b"
    have fr: "getStoreIndex m p \<noteq> x" if "unat p < 2 ^ sizeLog2 m2" "live m2 p" for p
      using fresh that by (simp add: sz live_def gh)
    show "a = b"
    proof (cases "a = i")
      case ai: True
      show ?thesis
      proof (cases "b = i")
        case True then show ?thesis using ai by simp
      next
        case False then show ?thesis using a(5) ai fr [OF a(2,4)] by (simp add: gs)
      qed
    next
      case an: False
      show ?thesis
      proof (cases "b = i")
        case True then show ?thesis using a(5) an fr [OF a(1,3)] by (simp add: gs)
      next
        case False
        then show ?thesis using a an ij unfolding idx_inj_def by (simp add: gs sz lv)
      qed
    qed
  qed
  have kd2: "keys_distinct m2 s"
    using kd unfolding keys_distinct_def by (simp add: gh ks lv sz)
  show "hm_inv m2 s rs" using wf2 pt2 po2 ij2 kd2 by (simp add: hm_inv_def)
  have uniq: "a = i" if u1: "unat a < 2 ^ sizeLog2 m" and u2: "live m a" and u3: "matches m s h key a" for a
    using kd i u1 u2 u3 unfolding keys_distinct_def matches_def by metis
  have mt: "\<And>a hh kk. matches m2 s hh kk a \<longleftrightarrow> matches m s hh kk a"
    by (simp add: matches_def gh ks)
  show "holds m2 s h' k' x' \<longleftrightarrow>
           (holds m s h' k' x' \<and> \<not> (h' = h \<and> k' = key)) \<or> (h' = h \<and> k' = key \<and> x' = x)"
  proof
    assume "holds m2 s h' k' x'"
    then obtain a where a: "unat a < 2 ^ sizeLog2 m" "live m a" "matches m s h' k' a"
      "getStoreIndex m2 a = x'"
      by (auto simp: holds_def sz lv mt)
    show "(holds m s h' k' x' \<and> \<not> (h' = h \<and> k' = key)) \<or> (h' = h \<and> k' = key \<and> x' = x)"
    proof (cases "a = i")
      case True
      then show ?thesis using a(3,4) i(3) by (auto simp: matches_def gs)
    next
      case False
      then have "holds m s h' k' x'" using a unfolding holds_def by (auto simp: gs)
      moreover have "\<not> (h' = h \<and> k' = key)" using uniq [OF a(1,2)] a(3) False by blast
      ultimately show ?thesis by blast
    qed
  next
    assume "(holds m s h' k' x' \<and> \<not> (h' = h \<and> k' = key)) \<or> (h' = h \<and> k' = key \<and> x' = x)"
    then show "holds m2 s h' k' x'"
    proof
      assume r: "holds m s h' k' x' \<and> \<not> (h' = h \<and> k' = key)"
      then obtain a where a: "unat a < 2 ^ sizeLog2 m" "live m a" "matches m s h' k' a"
        "getStoreIndex m a = x'"
        by (auto simp: holds_def)
      have "a \<noteq> i" using r a(3) i(3) by (auto simp: matches_def)
      then show ?thesis using a unfolding holds_def by (intro exI [of _ a]) (simp add: sz lv mt gs)
    next
      assume "h' = h \<and> k' = key \<and> x' = x"
      then show ?thesis using i unfolding holds_def by (intro exI [of _ i]) (simp add: sz lv mt gs)
    qed
  qed
qed

lemma hm_inv_delete:
  assumes hm: "hm_inv m s rs"
    and i: "unat i < 2 ^ sizeLog2 m" "live m i" "matches m s h key i"
  defines "m2 \<equiv> setHash m i deletedBucket"
  shows "hm_inv m2 s rs"
    and "holds m2 s h' k' x' \<longleftrightarrow> holds m s h' k' x' \<and> \<not> (h' = h \<and> k' = key)"
proof -
  from hm have wf: "hm_wf m" and pt: "points m rs" and po: "path_ok m" and ij: "idx_inj m"
    and kd: "keys_distinct m s"
    by (simp_all add: hm_inv_def)
  have gh: "\<And>a. getHash m2 a = (if a = i then deletedBucket else getHash m a)"
    and gs: "\<And>a. getStoreIndex m2 a = getStoreIndex m a"
    and sz: "sizeLog2 m2 = sizeLog2 m" "sizeMask m2 = sizeMask m" "sizeLimit m2 = sizeLimit m"
      "numKeysToExpand m2 = numKeysToExpand m" "numStoredKeys m2 = numStoredKeys m"
    by (simp_all add: m2_def)
  have de: "deletedBucket \<noteq> emptyBucket" by (simp add: deletedBucket_def emptyBucket_def)
  have lv: "\<And>a. live m2 a \<longleftrightarrow> a \<noteq> i \<and> live m a" by (auto simp: live_def gh)
  have ne: "\<And>a. getHash m2 a = emptyBucket \<longleftrightarrow> getHash m a = emptyBucket"
    using i(2) de by (auto simp: gh live_def)
  have wf2: "hm_wf m2" using wf by (simp add: hm_wf_def sz ne)
  have pt2: "points m2 rs" using pt unfolding points_def by (simp add: ne gs sz)
  have po2: "path_ok m2"
    by (rule path_ok_keep [OF po sz(1,2)]) (simp_all add: lv gh de)
  have ij2: "idx_inj m2" using ij unfolding idx_inj_def by (auto simp: lv gs sz)
  have kd2: "keys_distinct m2 s"
    using kd unfolding keys_distinct_def by (auto simp: lv gs gh sz)
  show "hm_inv m2 s rs" using wf2 pt2 po2 ij2 kd2 by (simp add: hm_inv_def)
  have uniq: "a = i" if u1: "unat a < 2 ^ sizeLog2 m" and u2: "live m a" and u3: "matches m s h key a" for a
    using kd i u1 u2 u3 unfolding keys_distinct_def matches_def by metis
  show "holds m2 s h' k' x' \<longleftrightarrow> holds m s h' k' x' \<and> \<not> (h' = h \<and> k' = key)"
  proof
    assume "holds m2 s h' k' x'"
    then obtain a where a: "unat a < 2 ^ sizeLog2 m" "a \<noteq> i" "live m a" "matches m2 s h' k' a"
      "getStoreIndex m a = x'"
      by (auto simp: holds_def sz lv gs)
    then have ma: "matches m s h' k' a" by (simp add: matches_def gh gs)
    then have "holds m s h' k' x'" using a unfolding holds_def by blast
    moreover have "\<not> (h' = h \<and> k' = key)" using uniq [OF a(1,3)] ma a(2) by blast
    ultimately show "holds m s h' k' x' \<and> \<not> (h' = h \<and> k' = key)" by blast
  next
    assume r: "holds m s h' k' x' \<and> \<not> (h' = h \<and> k' = key)"
    then obtain a where a: "unat a < 2 ^ sizeLog2 m" "live m a" "matches m s h' k' a"
      "getStoreIndex m a = x'"
      by (auto simp: holds_def)
    have "a \<noteq> i" using r a(3) i(3) by (auto simp: matches_def)
    then show "holds m2 s h' k' x'"
      using a unfolding holds_def by (intro exI [of _ a]) (simp add: sz lv gs matches_def gh)
  qed
qed

section \<open>The effect of Set\<close>

lemma pmap_inv_New:
  assumes "k \<le> 32" and "l \<le> 32" and "sz \<le> 2 ^ 32"
  shows "pmap_inv (New k l sz) []"
    and "\<not> holds (hm (New k l sz)) (st (New k l sz)) h key x"
proof -
  have "hm_wf (newHashMap k l)" using assms(1,2) by (simp add: hm_wf_def)
  moreover have "points (newHashMap k l) []" by (simp add: points_def)
  moreover have "path_ok (newHashMap k l)" by (simp add: path_ok_def live_def)
  moreover have "idx_inj (newHashMap k l)" by (simp add: idx_inj_def live_def)
  moreover have "keys_distinct (newHashMap k l) s" for s by (simp add: keys_distinct_def live_def)
  ultimately show "pmap_inv (New k l sz) []"
    using store_inv_newStore [OF assms(3)] by (simp add: pmap_inv_def hm_inv_def New_def)
  show "\<not> holds (hm (New k l sz)) (st (New k l sz)) h key x"
    by (simp add: holds_def live_def New_def)
qed

lemma Uint64_take8 [simp]: "Uint64 (take 8 b) = Uint64 b"
  by (simp add: Uint64_def)

lemma pmap_inv_checkSpace:
  assumes inv: "pmap_inv c rs" and cs: "checkSpace (hm c) = Inr m1"
  shows "pmap_inv (c\<lparr>hm := m1\<rparr>) rs"
    and "holds (hm (c\<lparr>hm := m1\<rparr>)) (st (c\<lparr>hm := m1\<rparr>)) h key x \<longleftrightarrow> holds (hm c) (st c) h key x"
  using checkSpace_Inr(1,3) [OF pmap_invD(2) [OF inv] cs] pmap_invD(1) [OF inv]
  by (simp_all add: pmap_inv_def)

lemma put_room:
  assumes st: "store_inv s rs" and room: "length_st s + 12 + length k + length v \<le> size_st s"
  obtains s' where "put s k v = Inr (of_nat (length_st s), s')"
    and "store_inv s' (rs @ [(k, v)])"
    and "unat (of_nat (length_st s) :: u32) = length_st s"
    and "length_st s = offs (rs @ [(k, v)]) (length rs)"
    and "deleted_st s' = deleted_st s"
    and "length_st s' = length_st s + 12 + length k + length v"
    and "size_st s' = size_st s"
proof -
  define s' where "s' = s\<lparr>file_st := write_at (file_st s) (length_st s) (frame k v),
                          length_st := length_st s + 12 + length k + length v\<rparr>"
  have put: "put s k v = Inr (of_nat (length_st s), s')" using room by (simp add: put_def s'_def)
  have sz: "size_st s' = size_st s"
    using put_Inr(5) [OF put] st by (auto simp: store_inv_def size_st_def)
  show thesis
    using that [OF put put_store_inv [OF st put] put_Inr(4,3) [OF put] sz] .
qed

lemma fresh_offset:
  assumes hm: "hm_inv m s rs" and st: "store_inv s rs" and x: "unat (x :: u32) = length_st s"
  shows "\<forall>i. unat i < 2 ^ sizeLog2 m \<longrightarrow> getHash m i \<noteq> emptyBucket \<longrightarrow> getStoreIndex m i \<noteq> x"
proof (intro allI impI)
  fix i assume i: "unat i < 2 ^ sizeLog2 m" "getHash m i \<noteq> emptyBucket"
  obtain j where j: "j < length rs" "unat (getStoreIndex m i) = offs rs j"
    using bucket_record [OF hm i] by blast
  have "offs rs j + 12 \<le> length_st s" using store_inv_bounds(4) [OF st j(1)] .
  then show "getStoreIndex m i \<noteq> x" using j(2) x by auto
qed

lemma Set_absent:
  assumes inv: "pmap_inv c rs" and len: "8 \<le> length v"
    and cs: "checkSpace (hm c) = Inr m1"
    and absent: "\<forall>x. \<not> holds (hm c) (st c) (hashReMap (ucast h64)) key x"
  shows "size_st (st c) < length_st (st c) + 12 + length key + length v \<Longrightarrow>
           Set c h64 key v = ret (Some ErrStoreFull, c\<lparr>hm := m1\<rparr>)"
    and "length_st (st c) + 12 + length key + length v \<le> size_st (st c) \<Longrightarrow>
           \<exists>c'. Set c h64 key v = ret (None, c') \<and> pmap_inv c' (rs @ [(key, v)]) \<and>
             (\<forall>h' k' x'. holds (hm c') (st c') h' k' x' \<longleftrightarrow>
                holds (hm c) (st c) h' k' x' \<or>
                (h' = hashReMap (ucast h64) \<and> k' = key \<and> x' = of_nat (length_st (st c)))) \<and>
             checksum c' = checksum c XOR (h64 XOR Uint64 v) \<and>
             deleted_st (st c') = deleted_st (st c) \<and>
             length_st (st c') = length_st (st c) + 12 + length key + length v \<and>
             size_st (st c') = size_st (st c) \<and>
             Get c' (hashReMap (ucast h64)) key = ret (Some v) \<and>
             (\<forall>h' k'. h' \<noteq> deletedBucket \<longrightarrow> \<not> (h' = hashReMap (ucast h64) \<and> k' = key) \<longrightarrow>
                Get c' h' k' = Get c h' k')"
proof -
  let ?h = "hashReMap (ucast h64)"
  let ?s = "st c"
  note st = pmap_invD(1) [OF inv] and hm = pmap_invD(2) [OF inv]
  note hm1 = checkSpace_Inr(1) [OF hm cs] and below = checkSpace_Inr(2) [OF hm cs]
  have same: "\<And>h k x. holds m1 ?s h k x \<longleftrightarrow> holds (hm c) ?s h k x"
    using checkSpace_Inr(3) [OF hm cs] .
  have abs1: "\<forall>x. \<not> holds m1 ?s ?h key x" using absent same by simp
  obtain d where d: "d < 2 ^ sizeLog2 m1"
      "probe m1 ?s ?h key (?h AND sizeMask m1) = ret (EmptyAt (slot m1 ?h d))"
      "getHash m1 (slot m1 ?h d) = emptyBucket"
      "\<forall>d'<d. getHash m1 (slot m1 ?h d') \<noteq> emptyBucket"
    using probe_not_holds [OF hm1 st hashReMap_live(2) abs1] by blast
  {
    assume "size_st (st c) < length_st (st c) + 12 + length key + length v"
    then have "put ?s key v = Inl ErrStoreFull" by (rule put_full)
    then show "Set c h64 key v = ret (Some ErrStoreFull, c\<lparr>hm := m1\<rparr>)"
      using len cs d(2) by (simp add: Set_def Let_def)
  }
  {
    assume room: "length_st (st c) + 12 + length key + length v \<le> size_st (st c)"
    let ?x = "of_nat (length_st ?s) :: u32"
    let ?rs' = "rs @ [(key, v)]"
    obtain s' where s': "put ?s key v = Inr (?x, s')" "store_inv s' ?rs'"
        "unat ?x = length_st ?s" "length_st ?s = offs ?rs' (length rs)"
        "deleted_st s' = deleted_st ?s"
        "length_st s' = length_st ?s + 12 + length key + length v" "size_st s' = size_st ?s"
      using put_room [OF st room] by blast
    note hm1' = hm_inv_extend(1) [OF hm1 st s'(2)]
    have same': "\<And>h k x. holds m1 s' h k x \<longleftrightarrow> holds m1 ?s h k x"
      using hm_inv_extend(2) [OF hm1 st s'(2)] .
    note fresh = fresh_offset [OF hm1 st s'(3)]
    define m2 where "m2 = (takeBucket m1 (slot m1 ?h d) ?h ?x)\<lparr>numStoredKeys := numStoredKeys m1 + 1\<rparr>"
    have jj: "length rs < length ?rs'" "unat ?x = offs ?rs' (length rs)"
        "fst (?rs' ! length rs) = key" "8 \<le> length (snd (?rs' ! length rs))"
      using s'(3,4) len by simp_all
    have abs': "\<forall>y. \<not> holds m1 s' ?h key y" using abs1 same' by simp
    note ins = hm_inv_insert [OF hm1' s'(2) below d(1,3,4) hashReMap_live jj fresh abs', folded m2_def]
    define c' where "c' = c\<lparr>st := s', hm := m2, checksum := checksum c XOR (h64 XOR Uint64 v)\<rparr>"
    have set: "Set c h64 key v = ret (None, c')"
      using len cs d(2) s'(1) by (simp add: Set_def Let_def sum_cs_def c'_def m2_def)
    have inv': "pmap_inv c' ?rs'" using ins(1) s'(2) by (simp add: pmap_inv_def c'_def)
    have hi: "\<forall>h' k' x'. holds (hm c') (st c') h' k' x' \<longleftrightarrow>
                holds (hm c) (st c) h' k' x' \<or> (h' = ?h \<and> k' = key \<and> x' = ?x)"
      using ins(2) same' same by (simp add: c'_def)
    have "holds (hm c') (st c') ?h key ?x" using hi by simp
    then have g1: "Get c' ?h key = ret (Some v)" using Get_holds [OF inv' _ jj(1,2)] by simp
    have g2: "\<forall>h' k'. h' \<noteq> deletedBucket \<longrightarrow> \<not> (h' = ?h \<and> k' = key) \<longrightarrow>
                Get c' h' k' = Get c h' k'"
      using Get_cong [OF inv inv'] hi by blast
    from inv' hi g1 g2 show "\<exists>c'. Set c h64 key v = ret (None, c') \<and> pmap_inv c' (rs @ [(key, v)]) \<and>
             (\<forall>h' k' x'. holds (hm c') (st c') h' k' x' \<longleftrightarrow>
                holds (hm c) (st c) h' k' x' \<or>
                (h' = hashReMap (ucast h64) \<and> k' = key \<and> x' = of_nat (length_st (st c)))) \<and>
             checksum c' = checksum c XOR (h64 XOR Uint64 v) \<and>
             deleted_st (st c') = deleted_st (st c) \<and>
             length_st (st c') = length_st (st c) + 12 + length key + length v \<and>
             size_st (st c') = size_st (st c) \<and>
             Get c' (hashReMap (ucast h64)) key = ret (Some v) \<and>
             (\<forall>h' k'. h' \<noteq> deletedBucket \<longrightarrow> \<not> (h' = hashReMap (ucast h64) \<and> k' = key) \<longrightarrow>
                Get c' h' k' = Get c h' k')"
      using set s'(5,6,7) by (intro exI [of _ c']) (simp add: c'_def)
  }
qed

lemma Set_present:
  assumes inv: "pmap_inv c rs" and len: "8 \<le> length v"
    and cs: "checkSpace (hm c) = Inr m1"
    and pres: "holds (hm c) (st c) (hashReMap (ucast h64)) key x"
  obtains j old where "j < length rs" and "unat x = offs rs j" and "rs ! j = (key, old)"
    and "8 \<le> length old"
    and "sint (Uint64 v) \<le> sint (Uint64 old) \<Longrightarrow> Set c h64 key v = ret (None, c\<lparr>hm := m1\<rparr>)"
    and "sint (Uint64 old) < sint (Uint64 v) \<Longrightarrow>
           size_st (st c) < length_st (st c) + 12 + length key + length v \<Longrightarrow>
           Set c h64 key v = ret (Some ErrStoreFull, c\<lparr>hm := m1\<rparr>)"
    and "sint (Uint64 old) < sint (Uint64 v) \<Longrightarrow>
           length_st (st c) + 12 + length key + length v \<le> size_st (st c) \<Longrightarrow>
           \<exists>c'. Set c h64 key v = ret (None, c') \<and> pmap_inv c' (rs @ [(key, v)]) \<and>
             (\<forall>h' k' x'. holds (hm c') (st c') h' k' x' \<longleftrightarrow>
                (holds (hm c) (st c) h' k' x' \<and> \<not> (h' = hashReMap (ucast h64) \<and> k' = key)) \<or>
                (h' = hashReMap (ucast h64) \<and> k' = key \<and> x' = of_nat (length_st (st c)))) \<and>
             checksum c' = checksum c XOR (h64 XOR Uint64 old) XOR (h64 XOR Uint64 v) \<and>
             deleted_st (st c') = deleted_st (st c) \<and>
             length_st (st c') = length_st (st c) + 12 + length key + length v \<and>
             size_st (st c') = size_st (st c) \<and>
             Get c' (hashReMap (ucast h64)) key = ret (Some v) \<and>
             (\<forall>h' k'. h' \<noteq> deletedBucket \<longrightarrow> \<not> (h' = hashReMap (ucast h64) \<and> k' = key) \<longrightarrow>
                Get c' h' k' = Get c h' k')"
proof -
  let ?h = "hashReMap (ucast h64)"
  let ?s = "st c"
  note st = pmap_invD(1) [OF inv] and hm = pmap_invD(2) [OF inv]
  note hm1 = checkSpace_Inr(1) [OF hm cs]
  have same: "\<And>h k x. holds m1 ?s h k x \<longleftrightarrow> holds (hm c) ?s h k x"
    using checkSpace_Inr(3) [OF hm cs] .
  have pres1: "holds m1 ?s ?h key x" using pres same by simp
  obtain j where j: "j < length rs" "unat x = offs rs j" "fst (rs ! j) = key"
      "8 \<le> length (snd (rs ! j))"
    using holds_record [OF hm st pres] by blast
  define old where "old = snd (rs ! j)"
  have rj: "rs ! j = (key, old)" using j(3) by (simp add: old_def prod_eq_iff)
  have lo: "8 \<le> length old" using j(4) by (simp add: old_def)
  obtain i where i: "unat i < 2 ^ sizeLog2 m1" "live m1 i" "getHash m1 i = ?h"
      "getStoreIndex m1 i = x" "probe m1 ?s ?h key (?h AND sizeMask m1) = ret (MatchAt i x)"
    using probe_holds [OF hm1 st pres1] by blast
  obtain vv where vv: "val_st ?s (offs rs j) = Some vv" "view_to vv 8 = Some (take 8 old)"
    using view_of_record [OF st j(1)] j(4) unfolding old_def by metis
  have discard: "Set c h64 key v = ret (None, c\<lparr>hm := m1\<rparr>)"
    if "sint (Uint64 v) \<le> sint (Uint64 old)"
    using that len cs i(5) vv j(2) by (auto simp: Set_def Let_def)
  have full: "Set c h64 key v = ret (Some ErrStoreFull, c\<lparr>hm := m1\<rparr>)"
    if lt: "sint (Uint64 old) < sint (Uint64 v)"
      and nr: "size_st (st c) < length_st (st c) + 12 + length key + length v"
    using lt len cs i(5) vv j(2) put_full [OF nr] by (simp add: Set_def Let_def)
  have over: "\<exists>c'. Set c h64 key v = ret (None, c') \<and> pmap_inv c' (rs @ [(key, v)]) \<and>
             (\<forall>h' k' x'. holds (hm c') (st c') h' k' x' \<longleftrightarrow>
                (holds (hm c) (st c) h' k' x' \<and> \<not> (h' = hashReMap (ucast h64) \<and> k' = key)) \<or>
                (h' = hashReMap (ucast h64) \<and> k' = key \<and> x' = of_nat (length_st (st c)))) \<and>
             checksum c' = checksum c XOR (h64 XOR Uint64 old) XOR (h64 XOR Uint64 v) \<and>
             deleted_st (st c') = deleted_st (st c) \<and>
             length_st (st c') = length_st (st c) + 12 + length key + length v \<and>
             size_st (st c') = size_st (st c) \<and>
             Get c' (hashReMap (ucast h64)) key = ret (Some v) \<and>
             (\<forall>h' k'. h' \<noteq> deletedBucket \<longrightarrow> \<not> (h' = hashReMap (ucast h64) \<and> k' = key) \<longrightarrow>
                Get c' h' k' = Get c h' k')"
    if lt: "sint (Uint64 old) < sint (Uint64 v)"
      and room: "length_st (st c) + 12 + length key + length v \<le> size_st (st c)"
  proof -
    let ?x = "of_nat (length_st ?s) :: u32"
    let ?rs' = "rs @ [(key, v)]"
    obtain s' where s': "put ?s key v = Inr (?x, s')" "store_inv s' ?rs'"
        "unat ?x = length_st ?s" "length_st ?s = offs ?rs' (length rs)"
        "deleted_st s' = deleted_st ?s"
        "length_st s' = length_st ?s + 12 + length key + length v" "size_st s' = size_st ?s"
      using put_room [OF st room] by blast
    note hm1' = hm_inv_extend(1) [OF hm1 st s'(2)]
    have same': "\<And>h k x. holds m1 s' h k x \<longleftrightarrow> holds m1 ?s h k x"
      using hm_inv_extend(2) [OF hm1 st s'(2)] .
    note fresh = fresh_offset [OF hm1 st s'(3)]
    have "key_st s' (offs rs j) = Some key"
      using key_st_extend [OF st s'(2) j(1)] store_inv_read(4) [OF st j(1)] j(3) by simp
    then have mt: "matches m1 s' ?h key i" using i(3,4) j(2) by (simp add: matches_def)
    define m2 where "m2 = takeBucket m1 i ?h ?x"
    have jj: "length rs < length ?rs'" "unat ?x = offs ?rs' (length rs)"
        "fst (?rs' ! length rs) = key" "8 \<le> length (snd (?rs' ! length rs))"
      using s'(3,4) len by simp_all
    note ow = hm_inv_overwrite [OF hm1' s'(2) i(1,2) mt jj fresh, folded m2_def]
    define c' where "c' = c\<lparr>st := s', hm := m2,
        checksum := checksum c XOR (h64 XOR Uint64 old) XOR (h64 XOR Uint64 v)\<rparr>"
    have set: "Set c h64 key v = ret (None, c')"
      using lt len cs i(5) vv j(2) s'(1)
      by (simp add: Set_def Let_def sum_cs_def sub_cs_def c'_def m2_def xor.assoc)
    have inv': "pmap_inv c' ?rs'" using ow(1) s'(2) by (simp add: pmap_inv_def c'_def)
    have hi: "\<forall>h' k' x'. holds (hm c') (st c') h' k' x' \<longleftrightarrow>
                (holds (hm c) (st c) h' k' x' \<and> \<not> (h' = ?h \<and> k' = key)) \<or>
                (h' = ?h \<and> k' = key \<and> x' = ?x)"
      using ow(2) same' same by (simp add: c'_def)
    have "holds (hm c') (st c') ?h key ?x" using hi by simp
    then have g1: "Get c' ?h key = ret (Some v)" using Get_holds [OF inv' _ jj(1,2)] by simp
    have g2: "\<forall>h' k'. h' \<noteq> deletedBucket \<longrightarrow> \<not> (h' = ?h \<and> k' = key) \<longrightarrow>
                Get c' h' k' = Get c h' k'"
      using Get_cong [OF inv inv'] hi by blast
    from inv' hi g1 g2 show ?thesis
      using set s'(5,6,7) by (intro exI [of _ c']) (simp add: c'_def)
  qed
  show thesis using that [OF j(1,2) rj lo discard full over] by blast
qed

section \<open>Set on a key whose record is not older\<close>

lemma checkSpace_room:
  assumes "numStoredKeys m < numKeysToExpand m \<or> sizeLog2 m < sizeLimit m"
  obtains m1 where "checkSpace m = Inr m1" and "numStoredKeys m < numKeysToExpand m \<Longrightarrow> m1 = m"
  using assms by (cases "numStoredKeys m < numKeysToExpand m") (auto simp: checkSpace_def expand_eq)

text \<open>The claim C2 fails where the table has reached its threshold and cannot double:
  the expansion check comes before the probing loop, so a Set that the timestamps would
  discard returns \<open>TableTooLarge\<close>. Here the table has two buckets and may not grow.\<close>

theorem Set_not_newer_at_table_limit:
  "Get (after (Set (New 1 1 100) (FNV1a64 key_a) key_a (ts 1000 @ [88])))
       (ucast (FNV1a64 key_a)) key_a = ret (Some (ts 1000 @ [88]))
   \<and> Set (after (Set (New 1 1 100) (FNV1a64 key_a) key_a (ts 1000 @ [88])))
       (FNV1a64 key_a) key_a (ts 500 @ [89])
     = ret (Some ErrTableTooLarge,
            after (Set (New 1 1 100) (FNV1a64 key_a) key_a (ts 1000 @ [88])))"
  by code_simp

text \<open>C2, amended. Let the map satisfy its invariant over a log \<open>rs\<close>, let the table be
  below its expansion threshold or still allowed to double, and let the value have at
  least 8 bytes. If the key is present (Get finds a value \<open>old\<close> under the hash Set probes
  with, the remapped low 32 bits of \<open>h64\<close>) and the timestamp of \<open>old\<close> is not below the
  timestamp of the new value (as signed 64 bit numbers), then Set returns nil and Checksum,
  Used, Deleted, Size and the mapped file are unchanged, the invariant still holds over
  the same log, Get still returns \<open>old\<close> for the key, and Get answers as before for
  every key under every hash other than the deleted-bucket sentinel. Below the threshold
  the map is not changed at all; at the threshold the call has doubled the table.\<close>

theorem Set_discards_not_newer:
  assumes inv: "pmap_inv c rs"
    and len: "8 \<le> length v"
    and room: "numStoredKeys (hm c) < numKeysToExpand (hm c) \<or> sizeLog2 (hm c) < sizeLimit (hm c)"
    and present: "Get c (hashReMap (ucast h64)) key = ret (Some old)"
    and notnewer: "sint (Uint64 v) \<le> sint (Uint64 old)"
  shows "\<exists>c'. Set c h64 key v = ret (None, c')
           \<and> Checksum c' = Checksum c \<and> Used c' = Used c \<and> Deleted c' = Deleted c
           \<and> Size c' = Size c \<and> Close c' = Close c
           \<and> pmap_inv c' rs
           \<and> Get c' (hashReMap (ucast h64)) key = ret (Some old)
           \<and> (\<forall>h32 k. h32 \<noteq> deletedBucket \<longrightarrow> Get c' h32 k = Get c h32 k)
           \<and> (numStoredKeys (hm c) < numKeysToExpand (hm c) \<longrightarrow> c' = c)"
proof -
  let ?h = "hashReMap (ucast h64)"
  obtain m1 where cs: "checkSpace (hm c) = Inr m1"
    and keep: "numStoredKeys (hm c) < numKeysToExpand (hm c) \<Longrightarrow> m1 = hm c"
    using checkSpace_room [OF room] by blast
  obtain x j where x: "holds (hm c) (st c) ?h key x" and j: "j < length rs" "unat x = offs rs j"
    and rj: "snd (rs ! j) = old"
    using Get_Some_holds [OF inv hashReMap_live(2) present] by metis
  obtain j' old' where j': "j' < length rs" "unat x = offs rs j'" "rs ! j' = (key, old')"
    and discard: "sint (Uint64 v) \<le> sint (Uint64 old') \<Longrightarrow> Set c h64 key v = ret (None, c\<lparr>hm := m1\<rparr>)"
    using Set_present [OF inv len cs x] by metis
  have "Get c ?h key = ret (Some (snd (rs ! j')))" using Get_holds [OF inv x j'(1,2)] .
  then have "old' = old" using present j'(3) by (simp add: ret_def)
  then have set: "Set c h64 key v = ret (None, c\<lparr>hm := m1\<rparr>)" using discard notnewer by simp
  let ?c' = "c\<lparr>hm := m1\<rparr>"
  note inv' = pmap_inv_checkSpace(1) [OF inv cs]
  have same: "\<And>h k x. holds (hm ?c') (st ?c') h k x \<longleftrightarrow> holds (hm c) (st c) h k x"
    using pmap_inv_checkSpace(2) [OF inv cs] .
  have get: "Get ?c' h32 k = Get c h32 k" if "h32 \<noteq> deletedBucket" for h32 k
    using Get_cong [of c rs ?c' "[]" h32 k] inv inv' that same by simp
  have "Get ?c' ?h key = ret (Some old)" using get [OF hashReMap_live(2)] present by simp
  moreover have "numStoredKeys (hm c) < numKeysToExpand (hm c) \<longrightarrow> ?c' = c"
    using keep by auto
  ultimately show ?thesis
    using set inv' get
    by (intro exI [of _ ?c']) (simp add: Checksum_def Used_def Deleted_def Size_def Close_def)
qed

theorem Set_discards_not_newer_witness:
  "Get (after (Set (New 2 4 100) (FNV1a64 key_a) key_a (ts 1000 @ [88])))
       (hashReMap (ucast (FNV1a64 key_a))) key_a = ret (Some (ts 1000 @ [88]))
   \<and> sint (Uint64 (ts 1000 @ [89])) \<le> sint (Uint64 (ts 1000 @ [88]))
   \<and> Set (after (Set (New 2 4 100) (FNV1a64 key_a) key_a (ts 1000 @ [88])))
       (FNV1a64 key_a) key_a (ts 1000 @ [89])
     = ret (None, after (Set (New 2 4 100) (FNV1a64 key_a) key_a (ts 1000 @ [88])))"
proof -
  let ?v = "ts 1000 @ [88]"
  let ?c = "after (Set (New 2 4 100) (FNV1a64 key_a) key_a ?v)"
  have len0: "8 \<le> length ?v" by code_simp
  have cs0: "checkSpace (hm (New 2 4 100)) = Inr (hm (New 2 4 100))"
    by (simp add: checkSpace_def New_def)
  have room0: "length_st (st (New 2 4 100)) + 12 + length key_a + length ?v
                 \<le> size_st (st (New 2 4 100))"
    by code_simp
  have abs0: "\<forall>x. \<not> holds (hm (New 2 4 100)) (st (New 2 4 100))
                 (hashReMap (ucast (FNV1a64 key_a))) key_a x"
    using pmap_inv_New(2) [of 2 4 100] by simp
  obtain c' where c': "Set (New 2 4 100) (FNV1a64 key_a) key_a ?v = ret (None, c')"
      "pmap_inv c' ([] @ [(key_a, ?v)])"
    using Set_absent(2) [OF pmap_inv_New(1) [of 2 4 100] len0 cs0 abs0 room0] by auto
  have inv: "pmap_inv ?c [(key_a, ?v)]" using c' by (simp add: after_def ret_def)
  have len: "8 \<le> length (ts 1000 @ [89])" by code_simp
  have room: "numStoredKeys (hm ?c) < numKeysToExpand (hm ?c) \<or> sizeLog2 (hm ?c) < sizeLimit (hm ?c)"
    by code_simp
  have below: "numStoredKeys (hm ?c) < numKeysToExpand (hm ?c)" by code_simp
  have present: "Get ?c (hashReMap (ucast (FNV1a64 key_a))) key_a = ret (Some ?v)"
    by code_simp
  have notnewer: "sint (Uint64 (ts 1000 @ [89])) \<le> sint (Uint64 ?v)" by code_simp
  show ?thesis
    using Set_discards_not_newer [OF inv len room present notnewer] below present notnewer
    by auto
qed

end
